theory Spec2Isabelle
  imports Main
begin

section \<open>Python values: exceptions and strings\<close>

text \<open>
  The crawler is Python.  An exception that leaves a function is a value \<open>Inl e\<close> of a sum
  type, a normal return is \<open>Inr v\<close>.  \<open>ZeroDivisionError\<close> is the exception of the
  \<open>%\<close> of crawler.py line 123 and of nothing else; \<open>KeyError\<close>, \<open>AttributeError\<close> and
  \<open>TypeError\<close> are those of a subscript, an attribute and a call on the wrong value;
  \<open>RecursionError\<close> is that of a recursion deeper than the interpreter allows;
  \<open>Raised msg\<close> is any exception that a library call or the callback raises, with its
  text.  Strings are \<open>string\<close>; a character stands for one code point below 256.
\<close>

datatype exn =
    ZeroDivisionError
  | KeyError string
  | AttributeError string
  | TypeError string
  | RecursionError
  | Raised string

definition py_bind :: "'e + 'a \<Rightarrow> ('a \<Rightarrow> 'e + 'b) \<Rightarrow> 'e + 'b" where
  "py_bind m f = (case m of Inl e \<Rightarrow> Inl e | Inr x \<Rightarrow> f x)"

text \<open>The outcome of a library call: the text of the exception it raised, or its value.\<close>

definition raised :: "string + 'a \<Rightarrow> exn + 'a" where
  "raised r = (case r of Inl msg \<Rightarrow> Inl (Raised msg) | Inr x \<Rightarrow> Inr x)"

text \<open>\<open>str.isspace\<close> on one character (the white space that \<open>str.strip()\<close> removes).\<close>

definition isspace :: "char \<Rightarrow> bool" where
  "isspace c = ((of_char c :: nat) \<in> set [9, 10, 11, 12, 13, 28, 29, 30, 31, 32, 133, 160])"

definition strip :: "string \<Rightarrow> string" where
  "strip s = rev (dropWhile isspace (rev (dropWhile isspace s)))"

definition rstrip_slash :: "string \<Rightarrow> string" where
  "rstrip_slash s = rev (dropWhile (\<lambda>c. c = CHR ''/'') (rev s))"

definition startswith :: "string \<Rightarrow> string \<Rightarrow> bool" where
  "startswith s p = (take (length p) s = p)"

definition lower_char :: "char \<Rightarrow> char" where
  "lower_char c =
     (let n = (of_char c :: nat)
      in if (65 \<le> n \<and> n \<le> 90) \<or> (192 \<le> n \<and> n \<le> 222 \<and> n \<noteq> 215) then char_of (n + 32) else c)"

definition lower :: "string \<Rightarrow> string" where
  "lower s = map lower_char s"

text \<open>\<open>a in s\<close> on strings.\<close>

fun contains :: "string \<Rightarrow> string \<Rightarrow> bool" where
  "contains [] a = (a = [])"
| "contains (c # cs) a = (startswith (c # cs) a \<or> contains cs a)"

text \<open>\<open>s.split(sep, 1)\<close> when \<open>sep\<close> occurs in \<open>s\<close>: the text before the first \<open>sep\<close> and the
  text after it; \<open>None\<close> when \<open>sep\<close> does not occur (the split has one part).\<close>

definition split_once :: "char \<Rightarrow> string \<Rightarrow> (string \<times> string) option" where
  "split_once sep s =
     (if sep \<in> set s
      then Some (takeWhile (\<lambda>c. c \<noteq> sep) s, tl (dropWhile (\<lambda>c. c \<noteq> sep) s))
      else None)"

text \<open>The maximal runs of characters that are not white space (the regular expression
  \<open>\S+\<close>, by which BeautifulSoup splits a multi-valued attribute such as \<open>rel\<close>).\<close>

fun split_ws :: "string \<Rightarrow> string \<Rightarrow> string list" where
  "split_ws cur [] = (if cur = [] then [] else [cur])"
| "split_ws cur (c # cs) =
     (if isspace c then (if cur = [] then split_ws [] cs else cur # split_ws [] cs)
      else split_ws (cur @ [c]) cs)"

section \<open>PageResult\<close>

record PageResult =
  url :: string
  title :: string
  description :: string
  h1 :: string
  canonical :: string
  meta_robots :: string
  status :: int
  error :: string

section \<open>The parse tree of BeautifulSoup\<close>

text \<open>
  The crawler walks the tree that \<open>BeautifulSoup(html, 'html.parser')\<close> returns.  A \<open>Tag\<close>
  has a name, its attributes (a dict, here an association list read with \<open>map_of\<close>) and
  its children; a \<open>NavigableString\<close> is a text node; \<open>Comment\<close> stands for the string nodes
  that \<open>get_text\<close> leaves out.
\<close>

datatype node =
    NavigableString string
  | Comment string
  | Tag string "(string \<times> string) list" "node list"

section \<open>The collaborators: library calls and the network\<close>

text \<open>
  What the crawler calls and does not define is a parameter, one record for all of it.
  A call that can raise returns a sum, \<open>Inl\<close> the text of the exception:
  \<^item> \<open>BeautifulSoup\<close>: \<open>BeautifulSoup(html, 'html.parser')\<close>, which raises when the parser
    rejects the markup;
  \<^item> \<open>recursion_limit\<close>: how many nested calls of the property \<open>.string\<close> the interpreter
    allows before it raises \<open>RecursionError\<close>;
  \<^item> \<open>urljoin\<close>: \<open>urllib.parse.urljoin(base, url)\<close>, which raises \<open>ValueError\<close> on a
    malformed URL;
  \<^item> \<open>hostname\<close>: \<open>urllib.parse.urlparse(url).hostname\<close>, which may be \<open>None\<close>, and raises
    where \<open>urlparse\<close> does;
  \<^item> \<open>robots_path\<close>: the path, parameters, query and fragment of a URL, unquoted and
    quoted again, as \<open>RobotFileParser.can_fetch\<close> computes them with \<open>urlparse\<close> before it
    looks at any rule;
  \<^item> \<open>quote_path\<close>: the path of a rule, through \<open>urlparse\<close>, \<open>urlunparse\<close> and \<open>quote\<close>, as
    the constructor of \<open>RuleLine\<close> computes it;
  \<^item> \<open>unquote\<close>, \<open>isdigit\<close>, \<open>py_int\<close>: \<open>urllib.parse.unquote\<close>, \<open>str.isdigit\<close> and \<open>int\<close> on
    a string;
  \<^item> \<open>splitlines\<close>: \<open>str.splitlines()\<close>;
  \<^item> \<open>sitemap_locs\<close>: \<open>ElementTree.fromstring(text)\<close> followed by
    \<open>iterfind('.//{*}loc')\<close>: \<open>None\<close> when the XML does not parse, else the \<open>.text\<close> of
    each \<open>loc\<close> element (itself \<open>None\<close> for an empty element);
  \<^item> \<open>http_aux\<close>: the GET of robots.txt and sitemap.xml, each in a session of its own;
  \<^item> \<open>http_get\<close>: the GET of a page in the crawl loop; its first argument is the number
    of GETs the loop has made before, so the same URL may answer differently over time;
  \<^item> \<open>callback\<close>: the progress callback, \<open>Some\<close> the text of the exception when it raises;
  \<^item> \<open>to_csv\<close>: building the data frame and writing it with \<open>to_csv\<close>, in \<open>autosave\<close>;
    \<open>to_excel\<close>: writing it with \<open>to_excel\<close>; each \<open>Some\<close> the text of the exception when
    it raises.
  A GET either raises (\<open>FetchError\<close> with the text of the exception; reading the body is
  part of the GET, in the same \<open>try\<close>) or returns the status and the decoded body.
\<close>

datatype fetch = FetchError string | Response int string

record lib =
  BeautifulSoup :: "string \<Rightarrow> string + node"
  recursion_limit :: nat
  urljoin :: "string \<Rightarrow> string \<Rightarrow> string + string"
  hostname :: "string \<Rightarrow> string + string option"
  robots_path :: "string \<Rightarrow> string + string"
  quote_path :: "string \<Rightarrow> string + string"
  unquote :: "string \<Rightarrow> string"
  isdigit :: "string \<Rightarrow> bool"
  py_int :: "string \<Rightarrow> string + int"
  splitlines :: "string \<Rightarrow> string list"
  sitemap_locs :: "string \<Rightarrow> string option list option"
  http_aux :: "string \<Rightarrow> fetch"
  http_get :: "nat \<Rightarrow> string \<Rightarrow> fetch"
  callback :: "int \<Rightarrow> int \<Rightarrow> string option"
  to_csv :: "PageResult list \<Rightarrow> string option"
  to_excel :: "PageResult list \<Rightarrow> string option"

section \<open>Walking the parse tree\<close>

text \<open>\<open>Tag.descendants\<close>: every node below a tag, in document order.\<close>

fun descendants :: "node \<Rightarrow> node list" where
  "descendants (Tag n a cs) = concat (map (\<lambda>c. c # descendants c) cs)"
| "descendants (NavigableString s) = []"
| "descendants (Comment s) = []"

text \<open>\<open>find_all\<close> keeps the matching descendants in document order; \<open>find\<close> is the first
  of them, or \<open>None\<close>.\<close>

definition soup_find_all :: "node \<Rightarrow> (node \<Rightarrow> bool) \<Rightarrow> node list" where
  "soup_find_all root p = filter p (descendants root)"

definition soup_find :: "node \<Rightarrow> (node \<Rightarrow> bool) \<Rightarrow> node option" where
  "soup_find root p = (case soup_find_all root p of [] \<Rightarrow> None | t # ts \<Rightarrow> Some t)"

definition is_tag :: "string \<Rightarrow> node \<Rightarrow> bool" where
  "is_tag nm n = (case n of Tag t a cs \<Rightarrow> t = nm | _ \<Rightarrow> False)"

text \<open>\<open>tag.get(key)\<close> returns \<open>None\<close> for a missing attribute; \<open>tag[key]\<close> raises
  \<open>KeyError\<close>.\<close>

definition tag_get :: "node \<Rightarrow> string \<Rightarrow> string option" where
  "tag_get n k = (case n of Tag t a cs \<Rightarrow> map_of a k | _ \<Rightarrow> None)"

definition tag_getitem :: "node \<Rightarrow> string \<Rightarrow> exn + string" where
  "tag_getitem n k =
     (case n of
        Tag t a cs \<Rightarrow> (case map_of a k of None \<Rightarrow> Inl (KeyError k) | Some v \<Rightarrow> Inr v)
      | _ \<Rightarrow> Inl (TypeError ''string indices must be integers''))"

text \<open>The search \<open>attrs={'name': v}\<close>: the attribute is there and equals \<open>v\<close>.\<close>

definition attr_is :: "string \<Rightarrow> string \<Rightarrow> node \<Rightarrow> bool" where
  "attr_is k v n = (tag_get n k = Some v)"

text \<open>The search \<open>rel=v\<close>: \<open>rel\<close> is multi-valued, its value is the list of its words; the
  tag matches when one word is \<open>v\<close> or the words joined by blanks are \<open>v\<close>.\<close>

fun join_blank :: "string list \<Rightarrow> string" where
  "join_blank [] = []"
| "join_blank [w] = w"
| "join_blank (w # ws) = w @ '' '' @ join_blank ws"

definition rel_is :: "string \<Rightarrow> node \<Rightarrow> bool" where
  "rel_is v n =
     (case tag_get n ''rel'' of
        None \<Rightarrow> False
      | Some r \<Rightarrow> v \<in> set (split_ws [] r) \<or> join_blank (split_ws [] r) = v)"

text \<open>
  \<open>tag.string\<close>: the only child when it is a string, the \<open>.string\<close> of the only child
  when it is a tag, \<open>None\<close> otherwise.  The property calls itself once for every tag on
  the way down; the first argument is the number of calls still allowed, and when it is
  used up Python raises \<open>RecursionError\<close>.
\<close>

fun tag_string :: "nat \<Rightarrow> node \<Rightarrow> exn + string option" where
  "tag_string 0 t = Inl RecursionError"
| "tag_string (Suc k) (Tag n a [NavigableString s]) = Inr (Some s)"
| "tag_string (Suc k) (Tag n a [Comment s]) = Inr (Some s)"
| "tag_string (Suc k) (Tag n a [Tag n' a' cs]) = tag_string k (Tag n' a' cs)"
| "tag_string (Suc k) t = Inr None"

text \<open>What \<open>.string\<close> is when the recursion is allowed to finish, and the number of nested
  calls it makes beyond the first.\<close>

fun string_of :: "node \<Rightarrow> string option" where
  "string_of (Tag n a [NavigableString s]) = Some s"
| "string_of (Tag n a [Comment s]) = Some s"
| "string_of (Tag n a [Tag n' a' cs]) = string_of (Tag n' a' cs)"
| "string_of t = None"

fun string_depth :: "node \<Rightarrow> nat" where
  "string_depth (Tag n a [Tag n' a' cs]) = Suc (string_depth (Tag n' a' cs))"
| "string_depth t = 0"

text \<open>\<open>tag.get_text(strip=True)\<close>: the text nodes below the tag, each stripped, the empty
  ones dropped, concatenated.\<close>

fun node_text :: "node \<Rightarrow> string option" where
  "node_text (NavigableString s) = Some s"
| "node_text x = None"

definition get_text_strip :: "node \<Rightarrow> string" where
  "get_text_strip t =
     concat (filter (\<lambda>s. s \<noteq> []) (map strip (List.map_filter node_text (descendants t))))"

text \<open>Attribute access, a method call and a subscript on a value that may be \<open>None\<close>: on
  \<open>None\<close> Python raises.\<close>

definition opt_string :: "lib \<Rightarrow> node option \<Rightarrow> exn + string option" where
  "opt_string L x =
     (case x of None \<Rightarrow> Inl (AttributeError ''string'')
      | Some t \<Rightarrow> tag_string (recursion_limit L) t)"

definition opt_strip :: "string option \<Rightarrow> exn + string" where
  "opt_strip x = (case x of None \<Rightarrow> Inl (AttributeError ''strip'') | Some s \<Rightarrow> Inr (strip s))"

definition opt_getitem :: "node option \<Rightarrow> string \<Rightarrow> exn + string" where
  "opt_getitem x k =
     (case x of None \<Rightarrow> Inl (TypeError ''NoneType is not subscriptable'') | Some t \<Rightarrow> tag_getitem t k)"

definition opt_get_text :: "node option \<Rightarrow> exn + string" where
  "opt_get_text x = (case x of None \<Rightarrow> Inl (AttributeError ''get_text'') | Some t \<Rightarrow> Inr (get_text_strip t))"

text \<open>Truth values: a tag is true, \<open>None\<close> and the empty string are false.  \<open>x and x.string\<close>
  and \<open>x and x.get(k)\<close> evaluate their second operand only when \<open>x\<close> is a tag; the second
  operand of the first is the property \<open>.string\<close>, which can raise.\<close>

definition has_string :: "lib \<Rightarrow> node option \<Rightarrow> exn + bool" where
  "has_string L x =
     (case x of None \<Rightarrow> Inr False
      | Some t \<Rightarrow>
          py_bind (tag_string (recursion_limit L) t)
            (\<lambda>s. Inr (case s of None \<Rightarrow> False | Some v \<Rightarrow> v \<noteq> [])))"

definition has_attr :: "node option \<Rightarrow> string \<Rightarrow> bool" where
  "has_attr x k =
     (case x of None \<Rightarrow> False
      | Some t \<Rightarrow> (case tag_get t k of None \<Rightarrow> False | Some v \<Rightarrow> v \<noteq> []))"

section \<open>parse_page\<close>

text \<open>
  \<open>parse_page(url, status, html)\<close>, crawler.py lines 138 to 149.  Line 139 calls the
  parser, outside any \<open>try\<close>.  Each field is a conditional expression; its condition and
  its first branch are written as Python evaluates them, from \<open>soup\<close> again, with the
  accesses that can raise.
\<close>

definition parse_page :: "lib \<Rightarrow> string \<Rightarrow> int \<Rightarrow> string \<Rightarrow> exn + PageResult" where
  "parse_page L u st html =
     py_bind (raised (BeautifulSoup L html))
       (\<lambda>soup.
      let soup_title = soup_find soup (is_tag ''title'') in
      py_bind (py_bind (has_string L soup_title)
                 (\<lambda>b. if b then py_bind (opt_string L soup_title) opt_strip else Inr []))
        (\<lambda>title'.
      let desc_tag = soup_find soup (\<lambda>n. is_tag ''meta'' n \<and> attr_is ''name'' ''description'' n) in
      py_bind (if has_attr desc_tag ''content''
               then py_bind (opt_getitem desc_tag ''content'') (\<lambda>v. Inr (strip v)) else Inr [])
        (\<lambda>description'.
      let h1_tag = soup_find soup (is_tag ''h1'') in
      py_bind (if h1_tag \<noteq> None then opt_get_text h1_tag else Inr [])
        (\<lambda>h1'.
      let canonical_tag = soup_find soup (\<lambda>n. is_tag ''link'' n \<and> rel_is ''canonical'' n) in
      py_bind (if has_attr canonical_tag ''href''
               then py_bind (opt_getitem canonical_tag ''href'') (\<lambda>v. Inr (strip v)) else Inr [])
        (\<lambda>canonical'.
      let robots_tag = soup_find soup (\<lambda>n. is_tag ''meta'' n \<and> attr_is ''name'' ''robots'' n) in
      py_bind (if has_attr robots_tag ''content''
               then py_bind (opt_getitem robots_tag ''content'') (\<lambda>v. Inr (strip v)) else Inr [])
        (\<lambda>meta_robots'.
      Inr \<lparr>url = u, title = title', description = description', h1 = h1',
           canonical = canonical', meta_robots = meta_robots', status = st, error = []\<rparr>))))))"

section \<open>urllib.robotparser\<close>

text \<open>
  \<open>RobotFileParser\<close> as the standard library defines it: the constructor, \<open>_add_entry\<close>,
  \<open>parse\<close>, and \<open>can_fetch\<close> with \<open>Entry.applies_to\<close>, \<open>Entry.allowance\<close> and
  \<open>RuleLine.applies_to\<close>.  \<open>last_checked\<close> is a time stamp of which only the truth value is
  read: \<open>False\<close> until \<open>parse\<close> calls \<open>modified()\<close>.  The delay, the request rate and the
  sitemaps of an entry are read by no call of the crawler and are left out; the
  conversions that compute them are kept, since they can raise.
\<close>

datatype RuleLine = RuleLine string bool

record Entry =
  useragents :: "string list"
  rulelines :: "RuleLine list"

record RobotFileParser =
  entries :: "Entry list"
  default_entry :: "Entry option"
  disallow_all :: bool
  allow_all :: bool
  last_checked :: bool

definition Entry_init :: Entry where
  "Entry_init = \<lparr>useragents = [], rulelines = []\<rparr>"

definition RobotFileParser_init :: RobotFileParser where
  "RobotFileParser_init =
     \<lparr>entries = [], default_entry = None, disallow_all = False, allow_all = False,
      last_checked = False\<rparr>"

definition add_entry :: "RobotFileParser \<Rightarrow> Entry \<Rightarrow> RobotFileParser" where
  "add_entry rp e =
     (if ''*'' \<in> set (useragents e)
      then (if default_entry rp = None then rp\<lparr>default_entry := Some e\<rparr> else rp)
      else rp\<lparr>entries := entries rp @ [e]\<rparr>)"

text \<open>\<open>RuleLine(path, allowance)\<close>: an empty \<open>Disallow\<close> allows everything.\<close>

definition RuleLine_init :: "lib \<Rightarrow> string \<Rightarrow> bool \<Rightarrow> exn + RuleLine" where
  "RuleLine_init L path allowance =
     py_bind (raised (quote_path L path))
       (\<lambda>p. Inr (RuleLine p (if path = [] \<and> \<not> allowance then True else allowance)))"

text \<open>
  One pass of the loop of \<open>parse\<close>.  The state is the number 0 (start), 1 (saw a
  user-agent line) or 2 (saw a rule), the entry being read, and the parser.  An empty
  line closes the entry; the comment is cut off and the line stripped; a line without a
  colon, or with a key that is not known, is skipped.
\<close>

definition robots_line ::
  "lib \<Rightarrow> nat \<times> Entry \<times> RobotFileParser \<Rightarrow> string \<Rightarrow> exn + nat \<times> Entry \<times> RobotFileParser"
where
  "robots_line L s line0 =
     (case s of (state0, entry0, rp0) \<Rightarrow>
      let (state, entry, rp) =
            (if line0 = []
             then (if state0 = 1 then (0, Entry_init, rp0)
                   else if state0 = 2 then (0, Entry_init, add_entry rp0 entry0)
                   else (state0, entry0, rp0))
             else (state0, entry0, rp0));
          line = strip (takeWhile (\<lambda>c. c \<noteq> CHR ''#'') line0)
      in if line = [] then Inr (state, entry, rp)
         else
           (case split_once CHR '':'' line of
              None \<Rightarrow> Inr (state, entry, rp)
            | Some (k0, v0) \<Rightarrow>
                let k = lower (strip k0); v = unquote L (strip v0)
                in if k = ''user-agent''
                   then (let (entry', rp') =
                               (if state = 2 then (Entry_init, add_entry rp entry) else (entry, rp))
                         in Inr (1, entry'\<lparr>useragents := useragents entry' @ [v]\<rparr>, rp'))
                   else if k = ''disallow''
                   then (if state \<noteq> 0
                         then py_bind (RuleLine_init L v False)
                                (\<lambda>r. Inr (2, entry\<lparr>rulelines := rulelines entry @ [r]\<rparr>, rp))
                         else Inr (state, entry, rp))
                   else if k = ''allow''
                   then (if state \<noteq> 0
                         then py_bind (RuleLine_init L v True)
                                (\<lambda>r. Inr (2, entry\<lparr>rulelines := rulelines entry @ [r]\<rparr>, rp))
                         else Inr (state, entry, rp))
                   else if k = ''crawl-delay''
                   then (if state \<noteq> 0
                         then (if isdigit L (strip v)
                               then py_bind (raised (py_int L v)) (\<lambda>d. Inr (2, entry, rp))
                               else Inr (2, entry, rp))
                         else Inr (state, entry, rp))
                   else if k = ''request-rate''
                   then (if state \<noteq> 0
                         then (case split_once CHR ''/'' v of
                                 None \<Rightarrow> Inr (2, entry, rp)
                               | Some (n0, n1) \<Rightarrow>
                                   if CHR ''/'' \<notin> set n1 \<and> isdigit L (strip n0) \<and> isdigit L (strip n1)
                                   then py_bind (raised (py_int L n0))
                                          (\<lambda>a. py_bind (raised (py_int L n1))
                                            (\<lambda>b. Inr (2, entry, rp)))
                                   else Inr (2, entry, rp))
                         else Inr (state, entry, rp))
                   else Inr (state, entry, rp)))"

fun parse_lines ::
  "lib \<Rightarrow> nat \<times> Entry \<times> RobotFileParser \<Rightarrow> string list \<Rightarrow> exn + nat \<times> Entry \<times> RobotFileParser"
where
  "parse_lines L s [] = Inr s"
| "parse_lines L s (l # ls) = py_bind (robots_line L s l) (\<lambda>s'. parse_lines L s' ls)"

definition rp_parse :: "lib \<Rightarrow> RobotFileParser \<Rightarrow> string list \<Rightarrow> exn + RobotFileParser" where
  "rp_parse L rp lines =
     py_bind (parse_lines L (0, Entry_init, rp\<lparr>last_checked := True\<rparr>) lines)
       (\<lambda>(state, e, rp'). Inr (if state = 2 then add_entry rp' e else rp'))"

definition rule_applies_to :: "RuleLine \<Rightarrow> string \<Rightarrow> bool" where
  "rule_applies_to r filename = (case r of RuleLine p a \<Rightarrow> p = ''*'' \<or> startswith filename p)"

fun allowance :: "RuleLine list \<Rightarrow> string \<Rightarrow> bool" where
  "allowance [] filename = True"
| "allowance (RuleLine p a # rs) filename =
     (if rule_applies_to (RuleLine p a) filename then a else allowance rs filename)"

definition applies_to :: "Entry \<Rightarrow> string \<Rightarrow> bool" where
  "applies_to e useragent =
     (let ua = lower (takeWhile (\<lambda>c. c \<noteq> CHR ''/'') useragent)
      in list_ex (\<lambda>agent. agent = ''*'' \<or> contains ua (lower agent)) (useragents e))"

definition can_fetch :: "lib \<Rightarrow> RobotFileParser \<Rightarrow> string \<Rightarrow> string \<Rightarrow> exn + bool" where
  "can_fetch L rp useragent u =
     (if disallow_all rp then Inr False
      else if allow_all rp then Inr True
      else if \<not> last_checked rp then Inr False
      else py_bind (raised (robots_path L u))
             (\<lambda>p. let p' = (if p = [] then ''/'' else p)
                  in (case List.find (\<lambda>e. applies_to e useragent) (entries rp) of
                        Some e \<Rightarrow> Inr (allowance (rulelines e) p')
                      | None \<Rightarrow>
                          (case default_entry rp of
                             Some e \<Rightarrow> Inr (allowance (rulelines e) p')
                           | None \<Rightarrow> Inr True))))"

section \<open>SEOCrawler\<close>

text \<open>
  The fields of the class, crawler.py lines 40 to 54.  \<open>parsed_base\<close> keeps the host name
  of \<open>urlparse(base_url)\<close>, the one component that is read.  \<open>visited\<close> is a set,
  \<open>to_visit\<close> a FIFO queue of pairs (URL, depth).  \<open>progress_callback\<close> says whether a
  callback is registered.  \<open>rate_limit\<close>, \<open>last_request\<close> and \<open>session\<close> are left out:
  \<open>rate_limit_wait\<close> only sleeps and sets \<open>last_request\<close>.

  Three more fields record what the crawl does to the outside, in order:
  \<open>fetched\<close>, the entries for which \<open>visited.add(url)\<close> and then \<open>session.get(url)\<close> ran;
  \<open>progress_calls\<close>, the arguments of each call of the callback; \<open>autosaves\<close>, the files
  that \<open>autosave()\<close> wrote, each with the \<open>results\<close> written.
\<close>

record crawler =
  base_url :: string
  parsed_base :: "string option"
  max_depth :: int
  max_pages :: int
  include_subdomains :: bool
  autosave_interval :: int
  results :: "PageResult list"
  errors :: "PageResult list"
  visited :: "string set"
  to_visit :: "(string \<times> int) list"
  robot_parser :: RobotFileParser
  progress_callback :: bool
  fetched :: "(string \<times> int) list"
  progress_calls :: "(int \<times> int) list"
  autosaves :: "(string \<times> PageResult list) list"

text \<open>The constructor, lines 28 to 54.  \<open>urlparse(self.base_url)\<close> of line 41 raises on a
  malformed base URL.\<close>

definition SEOCrawler_init ::
  "lib \<Rightarrow> string \<Rightarrow> int \<Rightarrow> int \<Rightarrow> bool \<Rightarrow> int \<Rightarrow> bool \<Rightarrow> exn + crawler" where
  "SEOCrawler_init L base maxd maxp subs interval cb =
     py_bind (raised (hostname L (rstrip_slash base)))
       (\<lambda>h. Inr
          \<lparr>base_url = rstrip_slash base,
           parsed_base = h,
           max_depth = maxd, max_pages = maxp, include_subdomains = subs,
           autosave_interval = interval,
           results = [], errors = [], visited = {}, to_visit = [],
           robot_parser = RobotFileParser_init,
           progress_callback = cb,
           fetched = [], progress_calls = [], autosaves = []\<rparr>)"

text \<open>
  \<open>load_robots\<close>, lines 61 to 74.  The \<open>urljoin\<close> of line 62 stands before the \<open>try\<close>.
  \<open>load_robots_try\<close> is the body of the \<open>try\<close>: the GET, and for a status 200 the parse of
  the lines of the body by the parser the crawler holds; whatever it raises, the handler
  installs a fresh parser that has parsed no line.
\<close>

definition load_robots_try :: "lib \<Rightarrow> crawler \<Rightarrow> string \<Rightarrow> exn + crawler" where
  "load_robots_try L c robots_url =
     (case http_aux L robots_url of
        FetchError msg \<Rightarrow> Inl (Raised msg)
      | Response st body \<Rightarrow>
          if st = 200
          then py_bind (rp_parse L (robot_parser c) (splitlines L body))
                 (\<lambda>rp. Inr (c\<lparr>robot_parser := rp\<rparr>))
          else py_bind (rp_parse L RobotFileParser_init [])
                 (\<lambda>rp. Inr (c\<lparr>robot_parser := rp\<rparr>)))"

definition load_robots :: "lib \<Rightarrow> crawler \<Rightarrow> exn + crawler" where
  "load_robots L c =
     py_bind (raised (urljoin L (base_url c) ''/robots.txt''))
       (\<lambda>robots_url.
          case load_robots_try L c robots_url of
            Inr c' \<Rightarrow> Inr c'
          | Inl exc \<Rightarrow>
              py_bind (rp_parse L RobotFileParser_init [])
                (\<lambda>rp. Inr (c\<lparr>robot_parser := rp\<rparr>)))"

text \<open>\<open>load_sitemap\<close>, lines 76 to 89.  The \<open>urljoin\<close> of line 77 stands before the \<open>try\<close>.
  A \<open>loc\<close> without text raises at \<open>loc.text.strip()\<close>; the handler passes, and the URLs put
  before stay in the queue.\<close>

fun put_locs :: "crawler \<Rightarrow> string option list \<Rightarrow> crawler" where
  "put_locs c [] = c"
| "put_locs c (None # ls) = c"
| "put_locs c (Some t # ls) = put_locs (c\<lparr>to_visit := to_visit c @ [(strip t, 0)]\<rparr>) ls"

definition load_sitemap :: "lib \<Rightarrow> crawler \<Rightarrow> exn + crawler" where
  "load_sitemap L c =
     py_bind (raised (urljoin L (base_url c) ''/sitemap.xml''))
       (\<lambda>sitemap_url.
          case http_aux L sitemap_url of
            FetchError msg \<Rightarrow> Inr c
          | Response st body \<Rightarrow>
              if st = 200
              then (case sitemap_locs L body of None \<Rightarrow> Inr c | Some locs \<Rightarrow> Inr (put_locs c locs))
              else Inr c)"

text \<open>\<open>initialize\<close>, lines 56 to 59; \<open>seed\<close> is what follows \<open>load_robots\<close>.\<close>

definition seed :: "lib \<Rightarrow> crawler \<Rightarrow> exn + crawler" where
  "seed L c =
     py_bind (load_sitemap L c)
       (\<lambda>c2. Inr (c2\<lparr>to_visit := to_visit c2 @ [(base_url c2, 0)]\<rparr>))"

definition initialize :: "lib \<Rightarrow> crawler \<Rightarrow> exn + crawler" where
  "initialize L c = py_bind (load_robots L c) (seed L)"

text \<open>\<open>allowed\<close>, lines 91 to 96.\<close>

definition allowed :: "lib \<Rightarrow> crawler \<Rightarrow> string \<Rightarrow> exn + bool" where
  "allowed L c u =
     (if \<not> include_subdomains c
      then py_bind (raised (hostname L u))
             (\<lambda>h. if (h \<noteq> None \<and> h \<noteq> Some []) \<and> h \<noteq> parsed_base c then Inr False
                  else can_fetch L (robot_parser c) ''*'' u)
      else can_fetch L (robot_parser c) ''*'' u)"

text \<open>\<open>extract_links\<close>, lines 151 to 158: the parser again, then the loop over
  \<open>find_all('a', href=True)\<close>.  \<open>allowed\<close> is called only for a URL that starts with
  \<open>http\<close>.\<close>

fun links_loop :: "lib \<Rightarrow> crawler \<Rightarrow> string \<Rightarrow> node list \<Rightarrow> string list \<Rightarrow> exn + string list" where
  "links_loop L c base [] links = Inr links"
| "links_loop L c base (a # rest) links =
     py_bind (tag_getitem a ''href'')
       (\<lambda>v. py_bind (raised (urljoin L base v))
         (\<lambda>href.
            if startswith href ''http''
            then py_bind (allowed L c href)
                   (\<lambda>ok. links_loop L c base rest (if ok then links @ [href] else links))
            else links_loop L c base rest links))"

definition extract_links :: "lib \<Rightarrow> crawler \<Rightarrow> string \<Rightarrow> string \<Rightarrow> exn + string list" where
  "extract_links L c html base =
     py_bind (raised (BeautifulSoup L html))
       (\<lambda>soup.
          links_loop L c base
            (soup_find_all soup (\<lambda>n. is_tag ''a'' n \<and> tag_get n ''href'' \<noteq> None)) [])"

text \<open>\<open>autosave\<close>, lines 160 to 163, writes \<open>results\<close> to two files, one after the other.
  From here on an exception comes with the state it leaves behind.\<close>

definition autosave :: "lib \<Rightarrow> crawler \<Rightarrow> exn \<times> crawler + crawler" where
  "autosave L c =
     (case to_csv L (results c) of
        Some msg \<Rightarrow> Inl (Raised msg, c)
      | None \<Rightarrow>
          let c1 = c\<lparr>autosaves := autosaves c @ [(''autosave.csv'', results c)]\<rparr>
          in (case to_excel L (results c1) of
                Some msg \<Rightarrow> Inl (Raised msg, c1)
              | None \<Rightarrow> Inr (c1\<lparr>autosaves := autosaves c1 @ [(''autosave.xlsx'', results c1)]\<rparr>)))"

text \<open>
  The body of the loop of \<open>crawl\<close>, lines 103 to 128, for the entry \<open>(u, depth)\<close> just
  taken from the queue.  What follows the \<open>try\<close> is \<open>handle_response\<close>: \<open>parse_page\<close>
  (line 117), then \<open>record_page\<close> (lines 118 to 120), \<open>report_progress\<close> (lines 121 and
  122), \<open>autosave_check\<close> (lines 123 and 124) and \<open>follow_links\<close> (lines 125 to 128).
\<close>

definition error_page :: "string \<Rightarrow> string \<Rightarrow> PageResult" where
  "error_page u msg =
     \<lparr>url = u, title = [], description = [], h1 = [], canonical = [], meta_robots = [],
      status = 0, error = msg\<rparr>"

definition record_page :: "crawler \<Rightarrow> int \<Rightarrow> PageResult \<Rightarrow> crawler" where
  "record_page c st page =
     (let c1 = (if st \<noteq> 200 then c\<lparr>errors := errors c @ [page]\<rparr> else c)
      in c1\<lparr>results := results c1 @ [page]\<rparr>)"

definition report_progress :: "lib \<Rightarrow> crawler \<Rightarrow> exn \<times> crawler + crawler" where
  "report_progress L c =
     (if progress_callback c
      then (let c' = c\<lparr>progress_calls :=
                        progress_calls c @ [(int (length (results c)), max_pages c)]\<rparr>
            in case callback L (int (length (results c))) (max_pages c) of
                 Some msg \<Rightarrow> Inl (Raised msg, c')
               | None \<Rightarrow> Inr c')
      else Inr c)"

definition autosave_check :: "lib \<Rightarrow> crawler \<Rightarrow> exn \<times> crawler + crawler" where
  "autosave_check L c =
     (if autosave_interval c = 0 then Inl (ZeroDivisionError, c)
      else if int (length (results c)) mod autosave_interval c = 0 then autosave L c
      else Inr c)"

definition enqueue_links :: "crawler \<Rightarrow> string list \<Rightarrow> int \<Rightarrow> crawler" where
  "enqueue_links c links depth =
     c\<lparr>to_visit := to_visit c @ map (\<lambda>l. (l, depth + 1)) (filter (\<lambda>l. l \<notin> visited c) links)\<rparr>"

definition follow_links ::
  "lib \<Rightarrow> crawler \<Rightarrow> string \<Rightarrow> int \<Rightarrow> int \<Rightarrow> string \<Rightarrow> exn \<times> crawler + crawler" where
  "follow_links L c u depth st html =
     (if st = 200 \<and> depth < max_depth c
      then (case extract_links L c html u of
              Inl e \<Rightarrow> Inl (e, c)
            | Inr links \<Rightarrow> Inr (enqueue_links c links depth))
      else Inr c)"

definition handle_response ::
  "lib \<Rightarrow> crawler \<Rightarrow> string \<Rightarrow> int \<Rightarrow> int \<Rightarrow> string \<Rightarrow> exn \<times> crawler + crawler" where
  "handle_response L c u depth st html =
     (case parse_page L u st html of
        Inl e \<Rightarrow> Inl (e, c)
      | Inr page \<Rightarrow>
          py_bind (report_progress L (record_page c st page))
            (\<lambda>c3. py_bind (autosave_check L c3)
              (\<lambda>c4. follow_links L c4 u depth st html)))"

definition crawl_body :: "lib \<Rightarrow> crawler \<Rightarrow> string \<Rightarrow> int \<Rightarrow> exn \<times> crawler + crawler" where
  "crawl_body L c u depth =
     (if u \<in> visited c \<or> depth > max_depth c then Inr c
      else
        (case allowed L c u of
           Inl e \<Rightarrow> Inl (e, c)
         | Inr ok \<Rightarrow>
             if \<not> ok then Inr c
             else
               let c1 = c\<lparr>visited := insert u (visited c), fetched := fetched c @ [(u, depth)]\<rparr>
               in (case http_get L (length (fetched c)) u of
                     FetchError msg \<Rightarrow> Inr (c1\<lparr>errors := errors c1 @ [error_page u msg]\<rparr>)
                   | Response st html \<Rightarrow> handle_response L c1 u depth st html)))"

text \<open>The state an outcome carries, raised or returned.\<close>

definition final :: "exn \<times> crawler + crawler \<Rightarrow> crawler" where
  "final r = (case r of Inl (e, c) \<Rightarrow> c | Inr c \<Rightarrow> c)"

text \<open>
  The loop of \<open>crawl\<close>, line 102: while the queue is not empty and \<open>len(results)\<close> is below
  \<open>max_pages\<close>, take the next entry and run the body.  Every pass that returns either adds
  a page to \<open>results\<close> or shortens the queue, so the loop ends.
\<close>

function crawl_loop :: "lib \<Rightarrow> crawler \<Rightarrow> exn \<times> crawler + crawler" where
  "crawl_loop L c =
     (case to_visit c of
        [] \<Rightarrow> Inr c
      | (u, depth) # rest \<Rightarrow>
          if int (length (results c)) < max_pages c
          then (case crawl_body L (c\<lparr>to_visit := rest\<rparr>) u depth of
                  Inl e \<Rightarrow> Inl e
                | Inr c' \<Rightarrow> crawl_loop L c')
          else Inr c)"
  by pat_completeness auto
termination
proof (relation "measures [\<lambda>(L, c). nat (max_pages c - int (length (results c))),
                           \<lambda>(L, c). length (to_visit c)]")
  show "wf (measures [\<lambda>(L, c). nat (max_pages c - int (length (results c))),
                      \<lambda>(L, c). length (to_visit c)])"
    by simp
next
  fix L :: lib and c c' :: crawler and x rest u depth
  assume q: "to_visit c = x # rest" and x: "(u, depth) = x"
    and cap: "int (length (results c)) < max_pages c"
    and body: "crawl_body L (c\<lparr>to_visit := rest\<rparr>) u depth = Inr c'"
  have progress: "max_pages d' = max_pages d \<and> results d' = results d"
    if "report_progress L d = Inr d'" for d d'
    using that by (auto simp: report_progress_def Let_def split: if_splits option.splits)
  have save: "max_pages d' = max_pages d \<and> results d' = results d"
    if "autosave L d = Inr d'" for d d'
    using that by (auto simp: autosave_def Let_def split: option.splits)
  have check: "max_pages d' = max_pages d \<and> results d' = results d"
    if "autosave_check L d = Inr d'" for d d'
    using that save by (auto simp: autosave_check_def split: if_splits)
  have follow: "max_pages d' = max_pages d \<and> results d' = results d"
    if "follow_links L d v k st html = Inr d'" for d d' v k st html
    using that by (auto simp: follow_links_def enqueue_links_def split: if_splits sum.splits)
  have response: "max_pages d' = max_pages d \<and> length (results d') = Suc (length (results d))"
    if h: "handle_response L d v k st html = Inr d'" for d d' v k st html
  proof -
    from h obtain page d3 d4 where "parse_page L v st html = Inr page"
      and p: "report_progress L (record_page d st page) = Inr d3"
      and a: "autosave_check L d3 = Inr d4"
      and f: "follow_links L d4 v k st html = Inr d'"
      by (auto simp: handle_response_def py_bind_def split: sum.splits)
    have "max_pages (record_page d st page) = max_pages d"
      and "length (results (record_page d st page)) = Suc (length (results d))"
      by (simp_all add: record_page_def Let_def)
    then show ?thesis
      using progress [OF p] check [OF a] follow [OF f] by simp
  qed
  have "max_pages c' = max_pages c \<and>
        (length (results c') = Suc (length (results c)) \<or>
         results c' = results c \<and> to_visit c' = rest)"
  proof (cases "u \<in> visited c \<or> depth > max_depth c")
    case True
    then show ?thesis using body by (auto simp: crawl_body_def)
  next
    case False
    show ?thesis
    proof (cases "allowed L (c\<lparr>to_visit := rest\<rparr>) u")
      case (Inl e)
      then show ?thesis using body False by (simp add: crawl_body_def)
    next
      case (Inr ok)
      show ?thesis
      proof (cases ok)
        case False
        then show ?thesis using body Inr \<open>\<not> (u \<in> visited c \<or> depth > max_depth c)\<close>
          by (auto simp: crawl_body_def)
      next
        case True
        show ?thesis
        proof (cases "http_get L (length (fetched c)) u")
          case (FetchError msg)
          then show ?thesis
            using body Inr True \<open>\<not> (u \<in> visited c \<or> depth > max_depth c)\<close>
            by (auto simp: crawl_body_def)
        next
          case (Response st html)
          then have "handle_response L
                       (c\<lparr>to_visit := rest, visited := insert u (visited c),
                          fetched := fetched c @ [(u, depth)]\<rparr>) u depth st html = Inr c'"
            using body Inr True \<open>\<not> (u \<in> visited c \<or> depth > max_depth c)\<close>
            by (auto simp: crawl_body_def)
          from response [OF this] show ?thesis by simp
        qed
      qed
    qed
  qed
  then show "((L, c'), (L, c)) \<in> measures [\<lambda>(L, c). nat (max_pages c - int (length (results c))),
                                             \<lambda>(L, c). length (to_visit c)]"
    using q cap by auto
qed

declare crawl_loop.simps [simp del]

text \<open>\<open>crawl\<close>, lines 98 to 129: \<open>initialize\<close>, then the loop (the HTTP session is opened
  before and closed after).\<close>

definition crawl :: "lib \<Rightarrow> crawler \<Rightarrow> exn \<times> crawler + crawler" where
  "crawl L c = (case initialize L c of Inl e \<Rightarrow> Inl (e, c) | Inr c0 \<Rightarrow> crawl_loop L c0)"

text \<open>
  The states of a run of the loop from \<open>c0\<close>: \<open>Inr c\<close> is the state at the head of the
  loop, \<open>Inl (e, c)\<close> the state in which the body raised \<open>e\<close>.  Within one pass
  \<open>results\<close>, \<open>errors\<close>, \<open>visited\<close> and the logs only grow, \<open>results\<close> and \<open>visited\<close> by one
  element at most, so these states show every value they take.
\<close>

inductive runs :: "lib \<Rightarrow> crawler \<Rightarrow> exn \<times> crawler + crawler \<Rightarrow> bool" for L c0 where
  start: "runs L c0 (Inr c0)"
| pass: "runs L c0 (Inr c) \<Longrightarrow> to_visit c = (u, depth) # rest \<Longrightarrow>
         int (length (results c)) < max_pages c \<Longrightarrow>
         runs L c0 (crawl_body L (c\<lparr>to_visit := rest\<rparr>) u depth)"

text \<open>The bookkeeping that keeps every URL to one fetch: no URL is twice in the log of
  fetches, every fetched URL is in \<open>visited\<close>, no URL is twice in \<open>results\<close>, and every
  page of \<open>results\<close> was fetched.\<close>

definition dedup_inv :: "crawler \<Rightarrow> bool" where
  "dedup_inv c =
     (distinct (map fst (fetched c)) \<and> fst ` set (fetched c) \<subseteq> visited c \<and>
      distinct (map url (results c)) \<and> url ` set (results c) \<subseteq> fst ` set (fetched c))"

text \<open>A URL with the scheme HTTP or HTTPS, in the words of the specification: the text
  before the first colon is \<open>http\<close> or \<open>https\<close> (\<open>urljoin\<close> returns the scheme in lower
  case).\<close>

definition is_http :: "string \<Rightarrow> bool" where
  "is_http h = (startswith h ''http:'' \<or> startswith h ''https:'')"

section \<open>A small site, to run the crawler on\<close>

text \<open>
  The site of the specification's scenario: \<open>https://example.com\<close> answers 200 with a
  page titled Home that links to \<open>/about\<close>, to \<open>httpx://example.com/x\<close> and to
  \<open>/about\<close> again; \<open>https://example.com/about\<close> answers 404 and every other page fails;
  robots.txt answers 404 and sitemap.xml is unreachable.  Nothing the crawl of this site
  calls raises.  The library functions are given on the texts of this site only; on a
  few more texts they are what the libraries do there:
  \<^item> the parser rejects the markup \<open><![foo[bar]]>\<close>, which is the body of the page
    \<open>/broken\<close>, a page that no page links to;
  \<^item> the page \<open>deep\<close> has a title around a thousand nested \<open>b\<close> tags, as many as the
    interpreter allows calls;
  \<^item> \<open>urljoin\<close> and \<open>urlparse\<close> raise on \<open>http://[x\<close>, a link of the page \<open>links\<close>, and
    \<open>urlparse\<close> raises on the path \<open>//[x\<close> of a rule;
  \<^item> \<open>http:///etc\<close> has no host and the path \<open>/etc\<close>;
  \<^item> the text \<open>rules\<close> has the three lines of a robots.txt whose last line is no rule,
    the text \<open>badrules\<close> the two lines of one whose rule has the path \<open>//[x\<close>.
\<close>

fun nested :: "nat \<Rightarrow> node" where
  "nested 0 = Tag ''b'' [] [NavigableString ''x'']"
| "nested (Suc n) = Tag ''b'' [] [nested n]"

definition deep_soup :: node where
  "deep_soup = Tag ''[document]'' [] [Tag ''title'' [] [nested 1000]]"

definition home_soup :: node where
  "home_soup =
     Tag ''[document]'' []
       [Tag ''title'' [] [NavigableString '' Home ''],
        Tag ''a'' [(''href'', ''/about'')] [NavigableString ''About''],
        Tag ''a'' [(''href'', ''httpx://example.com/x'')] [NavigableString ''X''],
        Tag ''a'' [(''href'', ''/about'')] [NavigableString ''About us'']]"

definition links_soup :: node where
  "links_soup =
     Tag ''[document]'' []
       [Tag ''a'' [(''href'', ''/about'')] [NavigableString ''About''],
        Tag ''a'' [(''href'', ''http://[x'')] [NavigableString ''X'']]"

definition site :: lib where
  "site =
     \<lparr>BeautifulSoup =
        (\<lambda>html. if html = ''home'' then Inr home_soup
                else if html = ''links'' then Inr links_soup
                else if html = ''deep'' then Inr deep_soup
                else if html = ''<![foo[bar]]>'' then Inl ''ParserRejectedMarkup''
                else Inr (Tag ''[document]'' [] [])),
      recursion_limit = 1000,
      urljoin =
        (\<lambda>base u. if u = ''http://[x'' then Inl ''Invalid IPv6 URL''
                  else if startswith u ''/'' then Inr (''https://example.com'' @ u)
                  else Inr u),
      hostname =
        (\<lambda>u. if u = ''http://[x'' then Inl ''Invalid IPv6 URL''
             else if startswith u ''https://example.com'' \<or> startswith u ''httpx://example.com''
             then Inr (Some ''example.com'') else Inr None),
      robots_path =
        (\<lambda>u. if u = ''http://[x'' then Inl ''Invalid IPv6 URL''
             else if startswith u ''https://example.com'' \<or> startswith u ''httpx://example.com''
             then Inr (drop 19 u)
             else if u = ''http:///etc'' then Inr ''/etc'' else Inr u),
      quote_path = (\<lambda>p. if p = ''//[x'' then Inl ''Invalid IPv6 URL'' else Inr p),
      unquote = (\<lambda>s. s),
      isdigit = (\<lambda>s. s \<noteq> [] \<and> list_all (\<lambda>c. c \<in> set ''0123456789'') s),
      py_int = (\<lambda>s. Inr 0),
      splitlines =
        (\<lambda>body. if body = ''rules'' then [''User-agent: *'', ''Disallow: /'', ''<html>junk'']
                else if body = ''badrules'' then [''User-agent: *'', ''Disallow: //[x'']
                else []),
      sitemap_locs = (\<lambda>body. None),
      http_aux = (\<lambda>u. if u = ''https://example.com/robots.txt'' then Response 404 []
                      else FetchError ''unreachable''),
      http_get = (\<lambda>n u. if u = ''https://example.com'' then Response 200 ''home''
                         else if u = ''https://example.com/about'' then Response 404 []
                         else if u = ''https://example.com/broken''
                         then Response 200 ''<![foo[bar]]>''
                         else FetchError ''timeout''),
      callback = (\<lambda>n m. None),
      to_csv = (\<lambda>rs. None),
      to_excel = (\<lambda>rs. None)\<rparr>"



text \<open>The crawler for the site: depth 1, no subdomains, a callback registered.\<close>

definition site_crawler :: "int \<Rightarrow> int \<Rightarrow> crawler" where
  "site_crawler maxp interval =
     \<lparr>base_url = ''https://example.com'',
      parsed_base = Some ''example.com'',
      max_depth = 1, max_pages = maxp, include_subdomains = False,
      autosave_interval = interval,
      results = [], errors = [], visited = {}, to_visit = [],
      robot_parser = RobotFileParser_init,
      progress_callback = True,
      fetched = [], progress_calls = [], autosaves = []\<rparr>"

section \<open>What parse_page, extract_links and the robots parser return\<close>

lemma py_bind_Inr [simp]: "py_bind (Inr x) f = f x"
  by (simp add: py_bind_def)

lemma py_bind_Inl [simp]: "py_bind (Inl e) f = Inl e"
  by (simp add: py_bind_def)

lemma raised_simps [simp]: "raised (Inr x) = Inr x" "raised (Inl msg) = Inl (Raised msg)"
  by (simp_all add: raised_def)

lemma final_simps [simp]: "final (Inr c) = c" "final (Inl (e, c)) = c"
  by (simp_all add: final_def)

lemma strip_Nil [simp]: "strip [] = []"
  by (simp add: strip_def)

lemma tag_string_eq:
  "tag_string k t = (if string_depth t < k then Inr (string_of t) else Inl RecursionError)"
  by (induction k t rule: tag_string.induct) simp_all

lemma title_field:
  "py_bind (has_string L x) (\<lambda>b. if b then py_bind (opt_string L x) opt_strip else Inr []) =
     (case x of None \<Rightarrow> Inr []
      | Some t \<Rightarrow>
          if string_depth t < recursion_limit L
          then Inr (case string_of t of None \<Rightarrow> [] | Some s \<Rightarrow> strip s)
          else Inl RecursionError)"
  by (simp add: has_string_def opt_string_def opt_strip_def tag_string_eq split: option.splits)

lemma attr_field:
  "(if has_attr x k then py_bind (opt_getitem x k) (\<lambda>v. Inr (strip v)) else Inr []) =
     Inr (case x of None \<Rightarrow> [] | Some t \<Rightarrow> (case tag_get t k of None \<Rightarrow> [] | Some v \<Rightarrow> strip v))"
  by (simp add: has_attr_def opt_getitem_def tag_getitem_def tag_get_def
        split: option.splits node.splits)

lemma text_field:
  "(if x \<noteq> None then opt_get_text x else Inr []) =
     Inr (case x of None \<Rightarrow> [] | Some t \<Rightarrow> get_text_strip t)"
  by (simp add: opt_get_text_def split: option.splits)

lemma parse_page_rejected:
  "BeautifulSoup L html = Inl msg \<Longrightarrow> parse_page L u st html = Inl (Raised msg)"
  by (simp add: parse_page_def)

lemma parse_page_parsed:
  "BeautifulSoup L html = Inr soup \<Longrightarrow>
   parse_page L u st html =
     py_bind (case soup_find soup (is_tag ''title'') of None \<Rightarrow> Inr []
              | Some t \<Rightarrow>
                  if string_depth t < recursion_limit L
                  then Inr (case string_of t of None \<Rightarrow> [] | Some s \<Rightarrow> strip s)
                  else Inl RecursionError)
       (\<lambda>title'. Inr
         \<lparr>url = u,
          title = title',
          description =
            (case soup_find soup (\<lambda>n. is_tag ''meta'' n \<and> attr_is ''name'' ''description'' n) of
               None \<Rightarrow> []
             | Some t \<Rightarrow> (case tag_get t ''content'' of None \<Rightarrow> [] | Some v \<Rightarrow> strip v)),
          h1 = (case soup_find soup (is_tag ''h1'') of None \<Rightarrow> [] | Some t \<Rightarrow> get_text_strip t),
          canonical =
            (case soup_find soup (\<lambda>n. is_tag ''link'' n \<and> rel_is ''canonical'' n) of
               None \<Rightarrow> []
             | Some t \<Rightarrow> (case tag_get t ''href'' of None \<Rightarrow> [] | Some v \<Rightarrow> strip v)),
          meta_robots =
            (case soup_find soup (\<lambda>n. is_tag ''meta'' n \<and> attr_is ''name'' ''robots'' n) of
               None \<Rightarrow> []
             | Some t \<Rightarrow> (case tag_get t ''content'' of None \<Rightarrow> [] | Some v \<Rightarrow> strip v)),
          status = st, error = []\<rparr>)"
  unfolding parse_page_def Let_def title_field attr_field text_field
  by simp



lemma parse_page_Inr:
  assumes "parse_page L u st html = Inr page"
  shows "url page = u \<and> status page = st \<and> error page = []"
proof (cases "BeautifulSoup L html")
  case (Inl msg)
  then show ?thesis using assms by (simp add: parse_page_rejected)
next
  case (Inr soup)
  show ?thesis
    using assms unfolding parse_page_parsed [OF Inr]
    by (auto simp: py_bind_def split: sum.splits)
qed

lemma parse_page_Inl:
  assumes "parse_page L u st html = Inl e"
  shows "e = RecursionError \<or> (\<exists>msg. e = Raised msg)"
proof (cases "BeautifulSoup L html")
  case (Inl msg)
  then show ?thesis using assms by (auto simp: parse_page_rejected)
next
  case (Inr soup)
  show ?thesis
    using assms unfolding parse_page_parsed [OF Inr]
    by (auto simp: py_bind_def split: sum.splits option.splits if_splits)
qed

lemma rp_parse_Nil: "rp_parse L rp [] = Inr (rp\<lparr>last_checked := True\<rparr>)"
  by (simp add: rp_parse_def)

lemma can_fetch_no_rules:
  "can_fetch L (RobotFileParser_init\<lparr>last_checked := True\<rparr>) ua u =
     (case robots_path L u of Inl msg \<Rightarrow> Inl (Raised msg) | Inr p \<Rightarrow> Inr True)"
  by (simp add: can_fetch_def RobotFileParser_init_def Let_def split: sum.splits)

lemma can_fetch_Inl: "can_fetch L rp ua u = Inl e \<Longrightarrow> \<exists>msg. e = Raised msg"
  by (auto simp: can_fetch_def Let_def py_bind_def raised_def
        split: if_splits sum.splits option.splits)

lemma allowed_Inl: "allowed L c u = Inl e \<Longrightarrow> \<exists>msg. e = Raised msg"
  by (auto simp: allowed_def py_bind_def raised_def dest: can_fetch_Inl
        split: if_splits sum.splits)

lemma allowed_state:
  "robot_parser c' = robot_parser c \<Longrightarrow> include_subdomains c' = include_subdomains c \<Longrightarrow>
   parsed_base c' = parsed_base c \<Longrightarrow> allowed L c' u = allowed L c u"
  by (simp add: allowed_def cong: if_cong)

lemma allowed_to_visit [simp]: "allowed L (c\<lparr>to_visit := q\<rparr>) u = allowed L c u"
  by (rule allowed_state) simp_all

lemma links_loop_Inl:
  "links_loop L c base tags acc = Inl e \<Longrightarrow> e \<noteq> ZeroDivisionError"
proof (induction tags arbitrary: acc)
  case Nil
  then show ?case by simp
next
  case (Cons a tags)
  show ?case
  proof (cases "tag_getitem a ''href''")
    case (Inl x)
    then have "e = x" using Cons.prems by simp
    then show ?thesis using Inl
      by (auto simp: tag_getitem_def split: node.splits option.splits)
  next
    case v: (Inr v)
    show ?thesis
    proof (cases "urljoin L base v")
      case (Inl msg)
      then show ?thesis using Cons.prems v by auto
    next
      case h: (Inr href)
      show ?thesis
      proof (cases "startswith href ''http''")
        case False
        then show ?thesis using Cons.prems v h Cons.IH by simp
      next
        case True
        show ?thesis
        proof (cases "allowed L c href")
          case (Inl x)
          then have "e = x" using Cons.prems v h True by simp
          then show ?thesis using allowed_Inl [OF Inl] by auto
        next
          case (Inr ok)
          then show ?thesis using Cons.prems v h True Cons.IH by simp
        qed
      qed
    qed
  qed
qed

lemma extract_links_Inl:
  "extract_links L c html base = Inl e \<Longrightarrow> e \<noteq> ZeroDivisionError"
  by (cases "BeautifulSoup L html") (auto simp: extract_links_def dest: links_loop_Inl)

lemma links_loop_state:
  "robot_parser c' = robot_parser c \<Longrightarrow> include_subdomains c' = include_subdomains c \<Longrightarrow>
   parsed_base c' = parsed_base c \<Longrightarrow> links_loop L c' base tags acc = links_loop L c base tags acc"
  by (induction tags arbitrary: acc) (simp_all add: allowed_state [of c' c] cong: if_cong)

lemma links_loop_returns:
  assumes "\<forall>a \<in> set tags. \<exists>v href. tag_get a ''href'' = Some v \<and> urljoin L base v = Inr href \<and>
             (startswith href ''http'' \<longrightarrow> (\<exists>ok. allowed L c href = Inr ok))"
  shows "links_loop L c base tags acc =
     Inr (acc @ filter (\<lambda>h. startswith h ''http'' \<and> allowed L c h = Inr True)
                  (map (\<lambda>a. projr (urljoin L base (the (tag_get a ''href'')))) tags))"
  using assms
proof (induction tags arbitrary: acc)
  case Nil
  then show ?case by simp
next
  case (Cons a tags)
  from Cons.prems obtain v href where v: "tag_get a ''href'' = Some v"
    and h: "urljoin L base v = Inr href"
    and ok: "startswith href ''http'' \<longrightarrow> (\<exists>ok. allowed L c href = Inr ok)"
    by auto
  have item: "tag_getitem a ''href'' = Inr v"
    using v by (auto simp: tag_get_def tag_getitem_def split: node.splits)
  from Cons.prems have rest: "\<forall>a \<in> set tags. \<exists>v href. tag_get a ''href'' = Some v \<and>
      urljoin L base v = Inr href \<and> (startswith href ''http'' \<longrightarrow> (\<exists>ok. allowed L c href = Inr ok))"
    by simp
  show ?case
  proof (cases "startswith href ''http''")
    case False
    then show ?thesis by (simp add: item v h Cons.IH [OF rest])
  next
    case True
    then obtain b where b: "allowed L c href = Inr b" using ok by auto
    show ?thesis using True by (simp add: item v h b Cons.IH [OF rest])
  qed
qed

section \<open>The body of the loop, stage by stage\<close>

text \<open>Each stage, whether it returns or raises, leaves the state it was given with one
  field changed.\<close>

lemma final_py_bind:
  "final (py_bind m f) = (case m of Inl (e, c) \<Rightarrow> c | Inr x \<Rightarrow> final (f x))"
  by (cases m) auto

lemma report_progress_final:
  "final (report_progress L c) =
     c\<lparr>progress_calls :=
         (if progress_callback c
          then progress_calls c @ [(int (length (results c)), max_pages c)]
          else progress_calls c)\<rparr>"
  by (simp add: report_progress_def Let_def split: option.splits)

lemma report_progress_Inl:
  "report_progress L c = Inl (e, c') \<Longrightarrow> \<exists>msg. e = Raised msg"
  by (auto simp: report_progress_def Let_def split: if_splits option.splits)

lemma report_progress_returns:
  "progress_callback c \<longrightarrow> callback L (int (length (results c))) (max_pages c) = None \<Longrightarrow>
   report_progress L c = Inr (final (report_progress L c))"
  by (auto simp: report_progress_def Let_def)

lemma autosave_final: "\<exists>a. final (autosave L c) = c\<lparr>autosaves := a\<rparr>"
proof (cases "to_csv L (results c)")
  case (Some msg)
  then have "final (autosave L c) = c\<lparr>autosaves := autosaves c\<rparr>"
    by (simp add: autosave_def)
  then show ?thesis ..
next
  case None
  then have "final (autosave L c) =
      c\<lparr>autosaves :=
          (case to_excel L (results c) of
             Some msg \<Rightarrow> autosaves c @ [(''autosave.csv'', results c)]
           | None \<Rightarrow> autosaves c @ [(''autosave.csv'', results c), (''autosave.xlsx'', results c)])\<rparr>"
    by (simp add: autosave_def Let_def split: option.splits)
  then show ?thesis ..
qed

lemma autosave_Inl: "autosave L c = Inl (e, c') \<Longrightarrow> \<exists>msg. e = Raised msg"
  by (auto simp: autosave_def Let_def split: option.splits)

lemma autosave_check_final: "\<exists>a. final (autosave_check L c) = c\<lparr>autosaves := a\<rparr>"
proof (cases "autosave_interval c \<noteq> 0 \<and> int (length (results c)) mod autosave_interval c = 0")
  case True
  then show ?thesis using autosave_final [of L c] by (simp add: autosave_check_def)
next
  case False
  then have "final (autosave_check L c) = c\<lparr>autosaves := autosaves c\<rparr>"
    by (auto simp: autosave_check_def)
  then show ?thesis ..
qed

lemma autosave_check_zero:
  "autosave_interval c = 0 \<Longrightarrow> autosave_check L c = Inl (ZeroDivisionError, c)"
  by (simp add: autosave_check_def)

lemma autosave_check_nonzero:
  "autosave_interval c \<noteq> 0 \<Longrightarrow> autosave_check L c \<noteq> Inl (ZeroDivisionError, c')"
  by (auto simp: autosave_check_def dest: autosave_Inl)

lemma follow_links_final:
  "\<exists>links. final (follow_links L c u depth st html) =
             c\<lparr>to_visit := to_visit c @ map (\<lambda>l. (l, depth + 1)) links\<rparr> \<and>
           (\<forall>l \<in> set links. l \<notin> visited c) \<and> (links \<noteq> [] \<longrightarrow> depth < max_depth c)"
proof (cases "st = 200 \<and> depth < max_depth c")
  case False
  then have "final (follow_links L c u depth st html) =
               c\<lparr>to_visit := to_visit c @ map (\<lambda>l. (l, depth + 1)) []\<rparr>"
    by (auto simp: follow_links_def)
  then show ?thesis by (intro exI [of _ "[]"]) simp
next
  case True
  show ?thesis
  proof (cases "extract_links L c html u")
    case (Inl e)
    then have "final (follow_links L c u depth st html) =
                 c\<lparr>to_visit := to_visit c @ map (\<lambda>l. (l, depth + 1)) []\<rparr>"
      using True by (simp add: follow_links_def)
    then show ?thesis by (intro exI [of _ "[]"]) simp
  next
    case (Inr links)
    then have "final (follow_links L c u depth st html) =
                 c\<lparr>to_visit := to_visit c @
                      map (\<lambda>l. (l, depth + 1)) (filter (\<lambda>l. l \<notin> visited c) links)\<rparr>"
      using True by (simp add: follow_links_def enqueue_links_def)
    then show ?thesis using True
      by (intro exI [of _ "filter (\<lambda>l. l \<notin> visited c) links"]) simp
  qed
qed

lemma follow_links_Inl:
  "follow_links L c u depth st html = Inl (e, c') \<Longrightarrow> e \<noteq> ZeroDivisionError"
  by (auto simp: follow_links_def split: if_splits sum.splits dest: extract_links_Inl)

text \<open>What \<open>handle_response\<close> leaves behind when \<open>parse_page\<close> returned a page: the page is in
  \<open>results\<close>, the callback was called, and what follows changed the autosave log and
  the queue at most.\<close>

lemma handle_response_unparsed:
  "parse_page L u st html = Inl e \<Longrightarrow> handle_response L c u depth st html = Inl (e, c)"
  by (simp add: handle_response_def)

lemma handle_response_parsed:
  assumes "parse_page L u st html = Inr page"
  shows "\<exists>saves links.
           final (handle_response L c u depth st html) =
             c\<lparr>errors := (if st \<noteq> 200 then errors c @ [page] else errors c),
               results := results c @ [page],
               progress_calls :=
                 (if progress_callback c
                  then progress_calls c @ [(int (length (results c)) + 1, max_pages c)]
                  else progress_calls c),
               autosaves := saves,
               to_visit := to_visit c @ map (\<lambda>l. (l, depth + 1)) links\<rparr> \<and>
           (\<forall>l \<in> set links. l \<notin> visited c) \<and> (links \<noteq> [] \<longrightarrow> depth < max_depth c)"
proof -
  define c3 where "c3 = c\<lparr>errors := (if st \<noteq> 200 then errors c @ [page] else errors c),
               results := results c @ [page],
               progress_calls :=
                 (if progress_callback c
                  then progress_calls c @ [(int (length (results c)) + 1, max_pages c)]
                  else progress_calls c)\<rparr>"
  have p: "final (report_progress L (record_page c st page)) = c3"
    unfolding report_progress_final
    by (simp add: c3_def record_page_def Let_def add.commute)
  have h: "handle_response L c u depth st html =
             py_bind (report_progress L (record_page c st page))
               (\<lambda>c3. py_bind (autosave_check L c3)
                 (\<lambda>c4. follow_links L c4 u depth st html))"
    by (simp add: handle_response_def assms)
  have same: "c3 = c3\<lparr>autosaves := autosaves c3, to_visit := to_visit c3 @ map (\<lambda>l. (l, depth + 1)) []\<rparr>"
    by simp
  have q3: "to_visit c3 = to_visit c" and v3: "visited c3 = visited c"
    and m3: "max_depth c3 = max_depth c" and a3: "autosaves c3 = autosaves c"
    by (simp_all add: c3_def)
  have "\<exists>saves links.
           final (handle_response L c u depth st html) =
             c3\<lparr>autosaves := saves, to_visit := to_visit c3 @ map (\<lambda>l. (l, depth + 1)) links\<rparr> \<and>
           (\<forall>l \<in> set links. l \<notin> visited c3) \<and> (links \<noteq> [] \<longrightarrow> depth < max_depth c3)"
  proof (cases "report_progress L (record_page c st page)")
    case (Inl x)
    then have "final (handle_response L c u depth st html) = c3"
      using p by (simp add: h final_py_bind split: prod.splits)
    then have "final (handle_response L c u depth st html) =
        c3\<lparr>autosaves := autosaves c3, to_visit := to_visit c3 @ map (\<lambda>l. (l, depth + 1)) []\<rparr>"
      by simp
    then show ?thesis
      by (intro exI [of _ "autosaves c3"] exI [of _ "[]"]) simp
  next
    case (Inr d3)
    then have d3: "d3 = c3" using p by simp
    obtain a where a: "final (autosave_check L c3) = c3\<lparr>autosaves := a\<rparr>"
      using autosave_check_final by blast
    show ?thesis
    proof (cases "autosave_check L c3")
      case (Inl x)
      then have "final (handle_response L c u depth st html) = c3\<lparr>autosaves := a\<rparr>"
        using a Inr d3 by (simp add: h final_py_bind split: prod.splits)
      then have "final (handle_response L c u depth st html) =
          c3\<lparr>autosaves := a, to_visit := to_visit c3 @ map (\<lambda>l. (l, depth + 1)) []\<rparr>"
        by simp
      then show ?thesis
        by (intro exI [of _ a] exI [of _ "[]"]) simp
    next
      case c4: (Inr c4)
      then have c4_eq: "c4 = c3\<lparr>autosaves := a\<rparr>" using a by simp
      obtain links where
        l: "final (follow_links L c4 u depth st html) =
              c4\<lparr>to_visit := to_visit c4 @ map (\<lambda>l. (l, depth + 1)) links\<rparr>"
        and n: "\<forall>l \<in> set links. l \<notin> visited c4" and d: "links \<noteq> [] \<longrightarrow> depth < max_depth c4"
        using follow_links_final [of L c4 u depth st html] by blast
      have "final (handle_response L c u depth st html) =
              c3\<lparr>autosaves := a, to_visit := to_visit c3 @ map (\<lambda>l. (l, depth + 1)) links\<rparr>"
        using l Inr d3 c4 by (simp add: h c4_eq)
      then show ?thesis
        using n d by (intro exI [of _ a] exI [of _ links]) (simp add: c4_eq)
    qed
  qed
  then obtain saves links where
    f: "final (handle_response L c u depth st html) =
          c3\<lparr>autosaves := saves, to_visit := to_visit c3 @ map (\<lambda>l. (l, depth + 1)) links\<rparr>"
    and n: "\<forall>l \<in> set links. l \<notin> visited c3" and d: "links \<noteq> [] \<longrightarrow> depth < max_depth c3"
    by blast
  have "final (handle_response L c u depth st html) =
             c\<lparr>errors := (if st \<noteq> 200 then errors c @ [page] else errors c),
               results := results c @ [page],
               progress_calls :=
                 (if progress_callback c
                  then progress_calls c @ [(int (length (results c)) + 1, max_pages c)]
                  else progress_calls c),
               autosaves := saves,
               to_visit := to_visit c @ map (\<lambda>l. (l, depth + 1)) links\<rparr>"
    unfolding f q3 by (simp add: c3_def)
  then show ?thesis
    using n d unfolding v3 m3 by (intro exI [of _ saves] exI [of _ links]) simp
qed

lemma handle_response_zero:
  assumes "parse_page L u st html = Inr page" and "autosave_interval c = 0"
    and "progress_callback c \<longrightarrow> callback L (int (length (results c)) + 1) (max_pages c) = None"
  shows "\<exists>c'. handle_response L c u depth st html = Inl (ZeroDivisionError, c') \<and>
              results c' = results c @ [page]"
proof -
  let ?c2 = "record_page c st page"
  have r2: "results ?c2 = results c @ [page]" and i2: "autosave_interval ?c2 = 0"
    and m2: "max_pages ?c2 = max_pages c" and cb2: "progress_callback ?c2 = progress_callback c"
    using assms(2) by (simp_all add: record_page_def Let_def)
  have "progress_callback ?c2 \<longrightarrow> callback L (int (length (results ?c2))) (max_pages ?c2) = None"
    using assms(3) by (simp add: r2 m2 cb2 add.commute)
  from report_progress_returns [OF this]
  obtain c3 where c3: "report_progress L ?c2 = Inr c3" and f3: "c3 = final (report_progress L ?c2)"
    by simp
  have r3: "results c3 = results c @ [page]" and i3: "autosave_interval c3 = 0"
    unfolding f3 report_progress_final by (simp_all add: r2 i2)
  have "handle_response L c u depth st html = Inl (ZeroDivisionError, c3)"
    by (simp add: handle_response_def assms(1) c3 autosave_check_zero [OF i3])
  then show ?thesis using r3 by simp
qed

lemma handle_response_nonzero:
  assumes "autosave_interval c \<noteq> 0"
  shows "handle_response L c u depth st html \<noteq> Inl (ZeroDivisionError, c')"
proof (cases "parse_page L u st html")
  case (Inl e)
  then show ?thesis
    using parse_page_Inl [OF Inl] by (auto simp: handle_response_unparsed)
next
  case (Inr page)
  let ?c2 = "record_page c st page"
  have h: "handle_response L c u depth st html =
             py_bind (report_progress L ?c2)
               (\<lambda>c3. py_bind (autosave_check L c3)
                 (\<lambda>c4. follow_links L c4 u depth st html))"
    by (simp add: handle_response_def Inr)
  show ?thesis
  proof (cases "report_progress L ?c2")
    case (Inl x)
    obtain e d where x: "x = (e, d)" by (cases x)
    from Inl x report_progress_Inl [of L ?c2 e d] show ?thesis
      by (auto simp: h)
  next
    case c3: (Inr c3)
    then have "c3 = final (report_progress L ?c2)" by simp
    then have i3: "autosave_interval c3 \<noteq> 0"
      unfolding report_progress_final using assms by (simp add: record_page_def Let_def)
    show ?thesis
    proof (cases "autosave_check L c3")
      case (Inl x)
      then show ?thesis
        using autosave_check_nonzero [OF i3, of L c'] by (auto simp: h c3)
    next
      case c4: (Inr c4)
      then show ?thesis
        using follow_links_Inl [of L c4 u depth st html ZeroDivisionError c']
        by (auto simp: h c3)
    qed
  qed
qed

lemma crawl_body_skip:
  "u \<in> visited c \<or> depth > max_depth c \<Longrightarrow> crawl_body L c u depth = Inr c"
  by (auto simp: crawl_body_def)

lemma crawl_body_disallowed:
  "u \<notin> visited c \<Longrightarrow> depth \<le> max_depth c \<Longrightarrow> allowed L c u = Inr False \<Longrightarrow>
   crawl_body L c u depth = Inr c"
  by (simp add: crawl_body_def)

lemma crawl_body_allowed_raises:
  "u \<notin> visited c \<Longrightarrow> depth \<le> max_depth c \<Longrightarrow> allowed L c u = Inl e \<Longrightarrow>
   crawl_body L c u depth = Inl (e, c)"
  by (simp add: crawl_body_def)

lemma crawl_body_error:
  "u \<notin> visited c \<Longrightarrow> depth \<le> max_depth c \<Longrightarrow> allowed L c u = Inr True \<Longrightarrow>
   http_get L (length (fetched c)) u = FetchError msg \<Longrightarrow>
   crawl_body L c u depth =
     Inr (c\<lparr>visited := insert u (visited c), fetched := fetched c @ [(u, depth)],
            errors := errors c @ [error_page u msg]\<rparr>)"
  by (simp add: crawl_body_def)

lemma crawl_body_response:
  "u \<notin> visited c \<Longrightarrow> depth \<le> max_depth c \<Longrightarrow> allowed L c u = Inr True \<Longrightarrow>
   http_get L (length (fetched c)) u = Response st html \<Longrightarrow>
   crawl_body L c u depth =
     handle_response L (c\<lparr>visited := insert u (visited c), fetched := fetched c @ [(u, depth)]\<rparr>)
       u depth st html"
  by (simp add: crawl_body_def)

lemma crawl_body_cases:
  obtains (skip) "crawl_body L c u depth = Inr c"
  | (raises) msg where "crawl_body L c u depth = Inl (Raised msg, c)"
  | (error) msg where "u \<notin> visited c" "depth \<le> max_depth c" "allowed L c u = Inr True"
      "http_get L (length (fetched c)) u = FetchError msg"
      "crawl_body L c u depth =
         Inr (c\<lparr>visited := insert u (visited c), fetched := fetched c @ [(u, depth)],
                errors := errors c @ [error_page u msg]\<rparr>)"
  | (response) st html where "u \<notin> visited c" "depth \<le> max_depth c" "allowed L c u = Inr True"
      "http_get L (length (fetched c)) u = Response st html"
      "crawl_body L c u depth =
         handle_response L (c\<lparr>visited := insert u (visited c), fetched := fetched c @ [(u, depth)]\<rparr>)
           u depth st html"
proof (cases "u \<in> visited c \<or> depth > max_depth c")
  case True
  then show ?thesis using skip crawl_body_skip by blast
next
  case False
  then have pre: "u \<notin> visited c" "depth \<le> max_depth c"
    by auto
  show ?thesis
  proof (cases "allowed L c u")
    case (Inl e)
    then obtain msg where "e = Raised msg" using allowed_Inl by blast
    then show ?thesis using raises crawl_body_allowed_raises [OF pre Inl] by simp
  next
    case (Inr ok)
    show ?thesis
    proof (cases ok)
      case False
      then show ?thesis using skip crawl_body_disallowed [OF pre] Inr by simp
    next
      case True
      then have a: "allowed L c u = Inr True" using Inr by simp
      show ?thesis
      proof (cases "http_get L (length (fetched c)) u")
        case (FetchError msg)
        then show ?thesis using error pre a crawl_body_error by blast
      next
        case (Response st html)
        then show ?thesis using response pre a crawl_body_response by blast
      qed
    qed
  qed
qed

text \<open>The fields of the state after \<open>handle_response\<close>, raised or returned.\<close>

lemma handle_response_fields:
  fixes L c u depth st html
  defines "R \<equiv> handle_response L c u depth st html"
  shows "results (final R) = results c \<or>
           (\<exists>page. parse_page L u st html = Inr page \<and> results (final R) = results c @ [page])"
    and "visited (final R) = visited c"
    and "fetched (final R) = fetched c"
    and "max_pages (final R) = max_pages c"
    and "max_depth (final R) = max_depth c"
    and "autosave_interval (final R) = autosave_interval c"
    and "progress_callback (final R) = progress_callback c"
    and "\<exists>links. to_visit (final R) = to_visit c @ map (\<lambda>l. (l, depth + 1)) links \<and>
           (\<forall>l \<in> set links. l \<notin> visited c) \<and> (links \<noteq> [] \<longrightarrow> depth < max_depth c)"
proof -
  have "(results (final R) = results c \<or>
           (\<exists>page. parse_page L u st html = Inr page \<and> results (final R) = results c @ [page])) \<and>
        visited (final R) = visited c \<and> fetched (final R) = fetched c \<and>
        max_pages (final R) = max_pages c \<and> max_depth (final R) = max_depth c \<and>
        autosave_interval (final R) = autosave_interval c \<and>
        progress_callback (final R) = progress_callback c \<and>
        (\<exists>links. to_visit (final R) = to_visit c @ map (\<lambda>l. (l, depth + 1)) links \<and>
           (\<forall>l \<in> set links. l \<notin> visited c) \<and> (links \<noteq> [] \<longrightarrow> depth < max_depth c))"
  proof (cases "parse_page L u st html")
    case (Inl e)
    have "to_visit c = to_visit c @ map (\<lambda>l. (l, depth + 1)) []" by simp
    then have "\<exists>links. to_visit c = to_visit c @ map (\<lambda>l. (l, depth + 1)) links \<and>
           (\<forall>l \<in> set links. l \<notin> visited c) \<and> (links \<noteq> [] \<longrightarrow> depth < max_depth c)"
      by (intro exI [of _ "[]"]) simp
    then show ?thesis
      unfolding R_def handle_response_unparsed [OF Inl] by simp
  next
    case (Inr page)
    from handle_response_parsed [OF Inr, of c depth]
    obtain saves links where
      f: "final R =
             c\<lparr>errors := (if st \<noteq> 200 then errors c @ [page] else errors c),
               results := results c @ [page],
               progress_calls :=
                 (if progress_callback c
                  then progress_calls c @ [(int (length (results c)) + 1, max_pages c)]
                  else progress_calls c),
               autosaves := saves,
               to_visit := to_visit c @ map (\<lambda>l. (l, depth + 1)) links\<rparr>"
      and n: "\<forall>l \<in> set links. l \<notin> visited c" and d: "links \<noteq> [] \<longrightarrow> depth < max_depth c"
      unfolding R_def by blast
    have q: "to_visit (final R) = to_visit c @ map (\<lambda>l. (l, depth + 1)) links"
      unfolding f by simp
    have "\<exists>links. to_visit (final R) = to_visit c @ map (\<lambda>l. (l, depth + 1)) links \<and>
           (\<forall>l \<in> set links. l \<notin> visited c) \<and> (links \<noteq> [] \<longrightarrow> depth < max_depth c)"
      using q n d by (intro exI [of _ links]) simp
    moreover have "results (final R) = results c @ [page]" "visited (final R) = visited c"
      "fetched (final R) = fetched c" "max_pages (final R) = max_pages c"
      "max_depth (final R) = max_depth c" "autosave_interval (final R) = autosave_interval c"
      "progress_callback (final R) = progress_callback c"
      unfolding f by simp_all
    ultimately show ?thesis using Inr by simp
  qed
  then show "results (final R) = results c \<or>
           (\<exists>page. parse_page L u st html = Inr page \<and> results (final R) = results c @ [page])"
    and "visited (final R) = visited c"
    and "fetched (final R) = fetched c"
    and "max_pages (final R) = max_pages c"
    and "max_depth (final R) = max_depth c"
    and "autosave_interval (final R) = autosave_interval c"
    and "progress_callback (final R) = progress_callback c"
    and "\<exists>links. to_visit (final R) = to_visit c @ map (\<lambda>l. (l, depth + 1)) links \<and>
           (\<forall>l \<in> set links. l \<notin> visited c) \<and> (links \<noteq> [] \<longrightarrow> depth < max_depth c)"
    by blast+
qed

section \<open>Initialisation and the runs of the loop\<close>

lemma put_locs_fields:
  "results (put_locs c ls) = results c \<and> errors (put_locs c ls) = errors c \<and>
   visited (put_locs c ls) = visited c \<and> fetched (put_locs c ls) = fetched c \<and>
   max_pages (put_locs c ls) = max_pages c \<and> max_depth (put_locs c ls) = max_depth c \<and>
   autosave_interval (put_locs c ls) = autosave_interval c \<and>
   progress_callback (put_locs c ls) = progress_callback c \<and>
   progress_calls (put_locs c ls) = progress_calls c \<and>
   robot_parser (put_locs c ls) = robot_parser c \<and> base_url (put_locs c ls) = base_url c \<and>
   include_subdomains (put_locs c ls) = include_subdomains c \<and>
   parsed_base (put_locs c ls) = parsed_base c"
  by (induction c ls rule: put_locs.induct) simp_all

lemma load_sitemap_fields:
  assumes "load_sitemap L c = Inr c2"
  shows "results c2 = results c \<and> errors c2 = errors c \<and>
   visited c2 = visited c \<and> fetched c2 = fetched c \<and>
   max_pages c2 = max_pages c \<and> max_depth c2 = max_depth c \<and>
   autosave_interval c2 = autosave_interval c \<and>
   progress_callback c2 = progress_callback c \<and>
   progress_calls c2 = progress_calls c \<and>
   robot_parser c2 = robot_parser c \<and> base_url c2 = base_url c \<and>
   include_subdomains c2 = include_subdomains c \<and>
   parsed_base c2 = parsed_base c"
proof -
  have "c2 = c \<or> (\<exists>locs. c2 = put_locs c locs)"
    using assms
    by (auto simp: load_sitemap_def py_bind_def raised_def
          split: sum.splits fetch.splits option.splits if_splits)
  then show ?thesis using put_locs_fields by auto
qed


lemma seed_fields:
  assumes "seed L c = Inr c0"
  shows "results c0 = results c \<and> errors c0 = errors c \<and>
   visited c0 = visited c \<and> fetched c0 = fetched c \<and>
   max_pages c0 = max_pages c \<and> max_depth c0 = max_depth c \<and>
   autosave_interval c0 = autosave_interval c \<and>
   progress_callback c0 = progress_callback c \<and>
   progress_calls c0 = progress_calls c \<and>
   robot_parser c0 = robot_parser c \<and> base_url c0 = base_url c \<and>
   include_subdomains c0 = include_subdomains c \<and>
   parsed_base c0 = parsed_base c"
proof -
  from assms obtain c2 where s: "load_sitemap L c = Inr c2"
    and c0: "c0 = c2\<lparr>to_visit := to_visit c2 @ [(base_url c2, 0)]\<rparr>"
    by (auto simp: seed_def py_bind_def split: sum.splits)
  show ?thesis using load_sitemap_fields [OF s] by (simp add: c0)
qed


lemma load_robots_Inr:
  assumes "load_robots L c = Inr c1"
  shows "\<exists>rp. c1 = c\<lparr>robot_parser := rp\<rparr>"
proof -
  from assms obtain robots_url where j: "urljoin L (base_url c) ''/robots.txt'' = Inr robots_url"
    by (cases "urljoin L (base_url c) ''/robots.txt''") (auto simp: load_robots_def)
  show ?thesis
  proof (cases "load_robots_try L c robots_url")
    case (Inl e)
    then have "c1 = c\<lparr>robot_parser := RobotFileParser_init\<lparr>last_checked := True\<rparr>\<rparr>"
      using assms j by (simp add: load_robots_def rp_parse_Nil)
    then show ?thesis ..
  next
    case (Inr d)
    then have "c1 = d" using assms j by (simp add: load_robots_def)
    then show ?thesis using Inr
      by (auto simp: load_robots_try_def py_bind_def split: fetch.splits if_splits sum.splits)
  qed
qed

lemma initialize_fields:
  assumes "initialize L c = Inr c0"
  shows "results c0 = results c \<and> errors c0 = errors c \<and>
     visited c0 = visited c \<and> fetched c0 = fetched c \<and> max_pages c0 = max_pages c \<and>
     max_depth c0 = max_depth c \<and> autosave_interval c0 = autosave_interval c \<and>
     progress_callback c0 = progress_callback c \<and> progress_calls c0 = progress_calls c \<and>
     include_subdomains c0 = include_subdomains c \<and> parsed_base c0 = parsed_base c"
proof -
  from assms obtain c1 where r: "load_robots L c = Inr c1" and s: "seed L c1 = Inr c0"
    by (auto simp: initialize_def py_bind_def split: sum.splits)
  obtain rp where "c1 = c\<lparr>robot_parser := rp\<rparr>"
    using load_robots_Inr [OF r] by blast
  then show ?thesis using seed_fields [OF s] by simp
qed

lemma runs_crawl_loop_from: "runs L c0 (Inr c) \<Longrightarrow> runs L c0 (crawl_loop L c)"
proof (induction L c rule: crawl_loop.induct)
  case (1 L c)
  show ?case
  proof (cases "to_visit c")
    case Nil
    then show ?thesis using "1.prems" by (simp add: crawl_loop.simps)
  next
    case (Cons x rest)
    obtain u depth where x: "x = (u, depth)" by (cases x)
    show ?thesis
    proof (cases "int (length (results c)) < max_pages c")
      case False
      then show ?thesis using "1.prems" Cons x by (simp add: crawl_loop.simps)
    next
      case True
      have step: "runs L c0 (crawl_body L (c\<lparr>to_visit := rest\<rparr>) u depth)"
        using runs.pass [OF "1.prems" _ True] Cons x by simp
      show ?thesis
      proof (cases "crawl_body L (c\<lparr>to_visit := rest\<rparr>) u depth")
        case (Inl e)
        then show ?thesis using step Cons x True by (simp add: crawl_loop.simps)
      next
        case (Inr c')
        have "runs L c0 (crawl_loop L c')"
          using "1.IH" [OF Cons x [symmetric] True Inr] step Inr by simp
        then show ?thesis using Cons x True Inr by (simp add: crawl_loop.simps)
      qed
    qed
  qed
qed

lemma runs_crawl_loop: "runs L c0 (crawl_loop L c0)"
  by (rule runs_crawl_loop_from) (rule runs.start)

lemma crawl_loop_stops_at_cap:
  "max_pages c \<le> int (length (results c)) \<Longrightarrow> crawl_loop L c = Inr c"
  by (simp add: crawl_loop.simps split: list.splits prod.splits)

section \<open>What every run keeps true\<close>

lemma crawl_body_config:
  "max_pages (final (crawl_body L c u depth)) = max_pages c"
  "max_depth (final (crawl_body L c u depth)) = max_depth c"
  "autosave_interval (final (crawl_body L c u depth)) = autosave_interval c"
  "progress_callback (final (crawl_body L c u depth)) = progress_callback c"
  by (cases rule: crawl_body_cases [of L c u depth]; simp add: handle_response_fields)+

lemma crawl_body_effect:
  "(fetched (final (crawl_body L c u depth)) = fetched c \<and>
    visited (final (crawl_body L c u depth)) = visited c \<and>
    results (final (crawl_body L c u depth)) = results c) \<or>
   (u \<notin> visited c \<and> depth \<le> max_depth c \<and> allowed L c u = Inr True \<and>
    fetched (final (crawl_body L c u depth)) = fetched c @ [(u, depth)] \<and>
    visited (final (crawl_body L c u depth)) = insert u (visited c) \<and>
    (results (final (crawl_body L c u depth)) = results c \<or>
     (\<exists>page. url page = u \<and> results (final (crawl_body L c u depth)) = results c @ [page])))"
proof (cases rule: crawl_body_cases [of L c u depth])
  case skip
  then show ?thesis by simp
next
  case (raises msg)
  then show ?thesis by simp
next
  case (error msg)
  then show ?thesis by simp
next
  case (response st html)
  let ?d = "c\<lparr>visited := insert u (visited c), fetched := fetched c @ [(u, depth)]\<rparr>"
  let ?R = "handle_response L ?d u depth st html"
  have f: "fetched (final ?R) = fetched c @ [(u, depth)]"
    and v: "visited (final ?R) = insert u (visited c)"
    by (simp_all add: handle_response_fields)
  have "results (final ?R) = results c \<or>
        (\<exists>page. url page = u \<and> results (final ?R) = results c @ [page])"
    using handle_response_fields(1) [of L ?d u depth st html] parse_page_Inr [of L u st html]
    by auto
  then show ?thesis
    unfolding response(5) using response(1-3) f v by simp
qed

lemma runs_config:
  "runs L c0 r \<Longrightarrow>
   max_pages (final r) = max_pages c0 \<and> max_depth (final r) = max_depth c0 \<and>
   autosave_interval (final r) = autosave_interval c0 \<and>
   progress_callback (final r) = progress_callback c0"
proof (induction rule: runs.induct)
  case start
  show ?case by simp
next
  case (pass c u depth rest)
  then show ?case by (simp add: crawl_body_config)
qed

lemma runs_page_cap:
  assumes "int (length (results c0)) \<le> max_pages c0" and "runs L c0 r"
  shows "int (length (results (final r))) \<le> max_pages c0"
  using assms(2)
proof (induction rule: runs.induct)
  case start
  show ?case using assms(1) by simp
next
  case (pass c u depth rest)
  have m: "max_pages c = max_pages c0"
    using runs_config [OF pass.hyps(1)] by simp
  have "length (results (final (crawl_body L (c\<lparr>to_visit := rest\<rparr>) u depth)))
          \<le> Suc (length (results c))"
    using crawl_body_effect [of L "c\<lparr>to_visit := rest\<rparr>" u depth] by auto
  then show ?case using pass.hyps(3) m by simp
qed

lemma crawl_body_dedup:
  assumes "dedup_inv c"
  shows "dedup_inv (final (crawl_body L c u depth))"
proof -
  let ?B = "final (crawl_body L c u depth)"
  from assms have d1: "distinct (map fst (fetched c))" and s1: "fst ` set (fetched c) \<subseteq> visited c"
    and d2: "distinct (map url (results c))" and s2: "url ` set (results c) \<subseteq> fst ` set (fetched c)"
    by (simp_all add: dedup_inv_def)
  consider (same) "fetched ?B = fetched c" "visited ?B = visited c" "results ?B = results c"
    | (fetch) "u \<notin> visited c" "fetched ?B = fetched c @ [(u, depth)]"
        "visited ?B = insert u (visited c)" "results ?B = results c"
    | (page) p where "u \<notin> visited c" "fetched ?B = fetched c @ [(u, depth)]"
        "visited ?B = insert u (visited c)" "results ?B = results c @ [p]" "url p = u"
    using crawl_body_effect [of L c u depth] by blast
  then show ?thesis
  proof cases
    case same
    then show ?thesis using assms by (simp add: dedup_inv_def)
  next
    case fetch
    have new: "u \<notin> fst ` set (fetched c)"
      using fetch(1) s1 by blast
    have "distinct (map fst (fetched c @ [(u, depth)]))"
      using d1 new by simp
    moreover have "fst ` set (fetched c @ [(u, depth)]) \<subseteq> insert u (visited c)"
      using s1 by auto
    moreover have "url ` set (results c) \<subseteq> fst ` set (fetched c @ [(u, depth)])"
      using s2 by auto
    ultimately show ?thesis
      unfolding dedup_inv_def fetch(2,3,4) using d2 by blast
  next
    case page
    have new: "u \<notin> fst ` set (fetched c)"
      using page(1) s1 by blast
    then have new2: "u \<notin> url ` set (results c)"
      using s2 by blast
    have "distinct (map fst (fetched c @ [(u, depth)]))"
      using d1 new by simp
    moreover have "fst ` set (fetched c @ [(u, depth)]) \<subseteq> insert u (visited c)"
      using s1 by auto
    moreover have "distinct (map url (results c @ [p]))"
      using d2 new2 page(5) by simp
    moreover have "url ` set (results c @ [p]) \<subseteq> fst ` set (fetched c @ [(u, depth)])"
      using s2 page(5) by auto
    ultimately show ?thesis
      unfolding dedup_inv_def page(2,3,4) by blast
  qed
qed

lemma runs_dedup:
  assumes "dedup_inv c0" and "runs L c0 r"
  shows "dedup_inv (final r)"
  using assms(2)
proof (induction rule: runs.induct)
  case start
  show ?case using assms(1) by simp
next
  case (pass c u depth rest)
  have "dedup_inv (c\<lparr>to_visit := rest\<rparr>)"
    using pass.IH by (simp add: dedup_inv_def)
  then show ?case by (rule crawl_body_dedup)
qed

lemma runs_visited_eq:
  assumes "fst ` set (fetched c0) = visited c0" and "runs L c0 r"
  shows "fst ` set (fetched (final r)) = visited (final r)"
  using assms(2)
proof (induction rule: runs.induct)
  case start
  show ?case using assms(1) by simp
next
  case (pass c u depth rest)
  have IH: "fst ` set (fetched c) = visited c"
    using pass.IH by simp
  let ?B = "final (crawl_body L (c\<lparr>to_visit := rest\<rparr>) u depth)"
  have "(fetched ?B = fetched c \<and> visited ?B = visited c) \<or>
        (fetched ?B = fetched c @ [(u, depth)] \<and> visited ?B = insert u (visited c))"
    using crawl_body_effect [of L "c\<lparr>to_visit := rest\<rparr>" u depth] by auto
  then show ?case
  proof
    assume "fetched ?B = fetched c \<and> visited ?B = visited c"
    then show ?thesis by (simp only: IH)
  next
    assume "fetched ?B = fetched c @ [(u, depth)] \<and> visited ?B = insert u (visited c)"
    then have "fst ` set (fetched ?B) = insert u (fst ` set (fetched c))"
      and "visited ?B = insert u (visited c)"
      by simp_all
    then show ?thesis by (simp only: IH)
  qed
qed

lemma runs_depth:
  assumes "\<forall>(v, d) \<in> set (fetched c0). d \<le> max_depth c0" and "runs L c0 r"
  shows "\<forall>(v, d) \<in> set (fetched (final r)). d \<le> max_depth c0"
  using assms(2)
proof (induction rule: runs.induct)
  case start
  show ?case using assms(1) by simp
next
  case (pass c u depth rest)
  have m: "max_depth c = max_depth c0"
    using runs_config [OF pass.hyps(1)] by simp
  let ?B = "final (crawl_body L (c\<lparr>to_visit := rest\<rparr>) u depth)"
  have IH: "\<forall>(v, d) \<in> set (fetched c). d \<le> max_depth c0"
    using pass.IH by simp
  have "fetched ?B = fetched c \<or> (depth \<le> max_depth c \<and> fetched ?B = fetched c @ [(u, depth)])"
    using crawl_body_effect [of L "c\<lparr>to_visit := rest\<rparr>" u depth] by auto
  then show ?case
  proof
    assume "fetched ?B = fetched c"
    then show ?thesis using IH by simp
  next
    assume "depth \<le> max_depth c \<and> fetched ?B = fetched c @ [(u, depth)]"
    then show ?thesis using IH m by auto
  qed
qed

section \<open>A crawler fresh from the constructor\<close>

lemma fresh_fields:
  assumes "SEOCrawler_init L base maxd maxp subs interval cb = Inr c"
  shows "results c = []" "errors c = []" "visited c = {}" "fetched c = []"
    "progress_calls c = []" "max_pages c = maxp" "max_depth c = maxd"
    "autosave_interval c = interval" "progress_callback c = cb" "include_subdomains c = subs"
  using assms
  by (auto simp: SEOCrawler_init_def py_bind_def raised_def split: sum.splits)

lemma fresh_start:
  assumes "py_bind (SEOCrawler_init L base maxd maxp subs interval cb) (initialize L) = Inr c0"
  shows "results c0 = []" "errors c0 = []" "visited c0 = {}" "fetched c0 = []"
    "progress_calls c0 = []" "max_pages c0 = maxp" "max_depth c0 = maxd"
    "autosave_interval c0 = interval" "progress_callback c0 = cb"
proof -
  from assms obtain c where c: "SEOCrawler_init L base maxd maxp subs interval cb = Inr c"
    and i: "initialize L c = Inr c0"
    by (auto simp: py_bind_def split: sum.splits)
  show "results c0 = []" "errors c0 = []" "visited c0 = {}" "fetched c0 = []"
    "progress_calls c0 = []" "max_pages c0 = maxp" "max_depth c0 = maxd"
    "autosave_interval c0 = interval" "progress_callback c0 = cb"
    using initialize_fields [OF i] fresh_fields [OF c] by simp_all
qed

lemma fresh_dedup:
  assumes "py_bind (SEOCrawler_init L base maxd maxp subs interval cb) (initialize L) = Inr c0"
  shows "dedup_inv c0" "fst ` set (fetched c0) = visited c0"
  using fresh_start [OF assms] by (simp_all add: dedup_inv_def)

lemma site_crawler_made:
  "SEOCrawler_init site ''https://example.com/'' 1 maxp False interval True =
     Inr (site_crawler maxp interval)"
  by (simp add: SEOCrawler_init_def site_crawler_def site_def rstrip_slash_def startswith_def)

lemma site_initialize:
  "initialize site (site_crawler maxp interval) =
     Inr ((site_crawler maxp interval)
            \<lparr>robot_parser := RobotFileParser_init\<lparr>last_checked := True\<rparr>,
             to_visit := [(''https://example.com'', 0)]\<rparr>)"
  by (simp add: initialize_def load_robots_def load_robots_try_def seed_def load_sitemap_def
        rp_parse_Nil site_crawler_def site_def startswith_def)

lemma site_crawl_loop:
  "\<exists>c0. py_bind (SEOCrawler_init site ''https://example.com/'' 1 maxp False interval True)
           (initialize site) = Inr c0 \<and>
        crawl site (site_crawler maxp interval) = crawl_loop site c0"
  by (simp add: site_crawler_made site_initialize crawl_def)

section \<open>The autosave interval\<close>

lemma crawl_body_nonzero:
  assumes "autosave_interval c \<noteq> 0"
  shows "crawl_body L c u depth \<noteq> Inl (ZeroDivisionError, c')"
proof (cases rule: crawl_body_cases [of L c u depth])
  case skip
  then show ?thesis by simp
next
  case (raises msg)
  then show ?thesis by simp
next
  case (error msg)
  then show ?thesis by simp
next
  case (response st html)
  let ?d = "c\<lparr>visited := insert u (visited c), fetched := fetched c @ [(u, depth)]\<rparr>"
  have "autosave_interval ?d \<noteq> 0" using assms by simp
  from handle_response_nonzero [OF this] show ?thesis
    unfolding response(5) .
qed

lemma crawl_body_zero:
  assumes "autosave_interval c = 0"
  shows "(\<exists>c'. crawl_body L c u depth = Inr c' \<and> results c' = results c) \<or>
         (\<exists>e c'. crawl_body L c u depth = Inl (e, c') \<and>
            (results c' = results c \<or> (\<exists>page. results c' = results c @ [page])))"
proof (cases rule: crawl_body_cases [of L c u depth])
  case skip
  then show ?thesis by simp
next
  case (raises msg)
  then show ?thesis by simp
next
  case (error msg)
  then show ?thesis by simp
next
  case (response st html)
  let ?d = "c\<lparr>visited := insert u (visited c), fetched := fetched c @ [(u, depth)]\<rparr>"
  let ?R = "handle_response L ?d u depth st html"
  have i: "autosave_interval ?d = 0" using assms by simp
  show ?thesis
  proof (cases "parse_page L u st html")
    case (Inl e)
    then show ?thesis
      unfolding response(5) by (simp add: handle_response_unparsed)
  next
    case (Inr page)
    have h: "?R = py_bind (report_progress L (record_page ?d st page))
               (\<lambda>c3. py_bind (autosave_check L c3)
                 (\<lambda>c4. follow_links L c4 u depth st html))"
      by (simp add: handle_response_def Inr)
    have r: "results (final (report_progress L (record_page ?d st page))) = results c @ [page]"
      and i3: "autosave_interval (final (report_progress L (record_page ?d st page))) = 0"
      unfolding report_progress_final using assms by (simp_all add: record_page_def Let_def)
    show ?thesis
    proof (cases "report_progress L (record_page ?d st page)")
      case (Inl x)
      obtain e c' where x: "x = (e, c')" by (cases x)
      have "results c' = results c @ [page]" using r Inl x by simp
      then show ?thesis
        unfolding response(5) h Inl x by simp
    next
      case c3: (Inr c3)
      have "results c3 = results c @ [page]" and "autosave_interval c3 = 0"
        using r i3 c3 by simp_all
      then show ?thesis
        unfolding response(5) h c3 by (simp add: autosave_check_zero)
    qed
  qed
qed

lemma runs_zero_interval:
  assumes "autosave_interval c0 = 0" and "results c0 = []" and "runs L c0 r"
  shows "case r of Inr c \<Rightarrow> results c = [] | Inl (e, c) \<Rightarrow> length (results c) \<le> 1"
  using assms(3)
proof (induction rule: runs.induct)
  case start
  show ?case using assms(2) by simp
next
  case (pass c u depth rest)
  have i: "autosave_interval (c\<lparr>to_visit := rest\<rparr>) = 0"
    using runs_config [OF pass.hyps(1)] assms(1) by simp
  have r: "results c = []"
    using pass.IH by simp
  from crawl_body_zero [OF i, of L u depth] show ?case
    using r by auto
qed

lemma runs_nonzero_interval:
  assumes "autosave_interval c0 \<noteq> 0" and "runs L c0 r"
  shows "r \<noteq> Inl (ZeroDivisionError, c')"
  using assms(2)
proof (induction rule: runs.induct)
  case start
  show ?case by simp
next
  case (pass c u depth rest)
  have "autosave_interval (c\<lparr>to_visit := rest\<rparr>) \<noteq> 0"
    using runs_config [OF pass.hyps(1)] assms(1) by simp
  then show ?case by (rule crawl_body_nonzero)
qed

section \<open>What a pass puts into the queue\<close>

lemma crawl_body_queue:
  "\<exists>links. to_visit (final (crawl_body L c u depth)) = to_visit c @ map (\<lambda>l. (l, depth + 1)) links \<and>
     (\<forall>l \<in> set links. l \<notin> visited (final (crawl_body L c u depth))) \<and>
     (links \<noteq> [] \<longrightarrow> depth < max_depth c)"
proof (cases rule: crawl_body_cases [of L c u depth])
  case skip
  then show ?thesis by (intro exI [of _ "[]"]) simp
next
  case (raises msg)
  then show ?thesis by (intro exI [of _ "[]"]) simp
next
  case (error msg)
  then show ?thesis by (intro exI [of _ "[]"]) simp
next
  case (response st html)
  let ?d = "c\<lparr>visited := insert u (visited c), fetched := fetched c @ [(u, depth)]\<rparr>"
  obtain links where
    q: "to_visit (final (handle_response L ?d u depth st html)) =
             to_visit ?d @ map (\<lambda>l. (l, depth + 1)) links"
    and n: "\<forall>l \<in> set links. l \<notin> visited ?d"
    and d: "links \<noteq> [] \<longrightarrow> depth < max_depth ?d"
    using handle_response_fields(8) [of L ?d u depth st html] by blast
  have v: "visited (final (handle_response L ?d u depth st html)) = visited ?d"
    by (simp add: handle_response_fields(2))
  have q': "to_visit (final (handle_response L ?d u depth st html)) =
             to_visit c @ map (\<lambda>l. (l, depth + 1)) links"
    using q by simp
  have d': "links \<noteq> [] \<longrightarrow> depth < max_depth c"
    using d by simp
  show ?thesis
    unfolding response(5) v
    using q' n d' by (intro exI [of _ links]) blast
qed

lemma crawl_body_no_refetch:
  "u \<in> visited c \<Longrightarrow> fetched (final (crawl_body L c u depth)) = fetched c"
  by (simp add: crawl_body_skip)

section \<open>Loading robots.txt\<close>


lemma allowed_no_rules:
  assumes "robot_parser c = RobotFileParser_init\<lparr>last_checked := True\<rparr>"
    and "hostname L u = Inr h" and "robots_path L u = Inr p"
  shows "allowed L c u =
     Inr (include_subdomains c \<or> h = None \<or> h = Some [] \<or> h = parsed_base c)"
  using assms by (auto simp: allowed_def can_fetch_no_rules)

section \<open>The deep title\<close>





section \<open>The claims\<close>

subsection \<open>C1\<close>

text \<open>
  Claim C1, as amended.  When the GET of a URL raises, the pass makes a \<open>PageResult\<close> with
  status 0, the text of the exception and every other field empty, appends it to
  \<open>errors\<close> and goes on to the next entry: \<open>results\<close> is left as it was, and nothing is
  put into the queue.
\<close>

theorem transport_error_goes_to_errors_only:
  assumes "u \<notin> visited c" and "depth \<le> max_depth c" and "allowed L c u = Inr True"
    and "http_get L (length (fetched c)) u = FetchError msg"
  shows "\<exists>c'. crawl_body L c u depth = Inr c' \<and>
           errors c' =
             errors c @ [\<lparr>url = u, title = [], description = [], h1 = [], canonical = [],
                          meta_robots = [], status = 0, error = msg\<rparr>] \<and>
           results c' = results c \<and>
           to_visit c' = to_visit c"
  using crawl_body_error [OF assms] by (simp add: error_page_def)

text \<open>
  On the small site the GET of \<open>httpx://example.com/x\<close> times out.
\<close>

theorem transport_error_goes_to_errors_only_witness:
  "http_get site 0 ''httpx://example.com/x'' = FetchError ''timeout'' \<and>
   errors (final (crawl_body site (projr (initialize site (site_crawler 10 2))) ''httpx://example.com/x'' 1)) =
     [\<lparr>url = ''httpx://example.com/x'', title = [], description = [], h1 = [], canonical = [],
       meta_robots = [], status = 0, error = ''timeout''\<rparr>] \<and>
   results (final (crawl_body site (projr (initialize site (site_crawler 10 2))) ''httpx://example.com/x'' 1)) = []"
proof -
  let ?c = "projr (initialize site (site_crawler 10 2))"
  have v: "''httpx://example.com/x'' \<notin> visited ?c" by code_simp
  have d: "1 \<le> max_depth ?c" by code_simp
  have a: "allowed site ?c ''httpx://example.com/x'' = Inr True" by code_simp
  have g: "http_get site (length (fetched ?c)) ''httpx://example.com/x'' = FetchError ''timeout''"
    by code_simp
  have g0: "http_get site 0 ''httpx://example.com/x'' = FetchError ''timeout''"
    by code_simp
  have e: "errors ?c = []" and r: "results ?c = []"
    by code_simp+
  from transport_error_goes_to_errors_only [OF v d a g]
  show ?thesis
  proof (elim exE conjE)
    fix c'
    assume "crawl_body site ?c ''httpx://example.com/x'' 1 = Inr c'"
      and "errors c' =
             errors ?c @ [\<lparr>url = ''httpx://example.com/x'', title = [], description = [], h1 = [],
                          canonical = [], meta_robots = [], status = 0, error = ''timeout''\<rparr>]"
      and "results c' = results ?c"
    then show ?thesis using g0 e r by simp
  qed
qed

text \<open>
  The claim as stated has the record appended to \<open>results\<close> as well, so that every
  entry of \<open>errors\<close> is in \<open>results\<close>.  After the crawl of the small site the record of the
  failed fetch is in \<open>errors\<close> and not in \<open>results\<close>.
\<close>

theorem transport_error_not_in_results_counterexample:
  "\<lparr>url = ''httpx://example.com/x'', title = [], description = [], h1 = [], canonical = [],
     meta_robots = [], status = 0, error = ''timeout''\<rparr>
     \<in> set (errors (final (crawl site (site_crawler 10 2)))) \<and>
   \<lparr>url = ''httpx://example.com/x'', title = [], description = [], h1 = [], canonical = [],
     meta_robots = [], status = 0, error = ''timeout''\<rparr>
     \<notin> set (results (final (crawl site (site_crawler 10 2)))) \<and>
   map url (results (final (crawl site (site_crawler 10 2)))) =
     [''https://example.com'', ''https://example.com/about'']"
  by code_simp

subsection \<open>C2\<close>




subsection \<open>C3\<close>

text \<open>
  Claim C3, as amended.  For a crawler made by the constructor with \<open>max_pages\<close> not
  negative, \<open>len(results) \<le> max_pages\<close> holds in every state of every run of the loop and
  in the state the loop ends in; and in a state where \<open>len(results)\<close> has reached
  \<open>max_pages\<close> the loop returns at once, whatever is left in the queue.
\<close>

theorem page_cap:
  assumes "0 \<le> maxp"
    and "py_bind (SEOCrawler_init L base maxd maxp subs interval cb) (initialize L) = Inr c0"
    and "runs L c0 r"
  shows "int (length (results (final r))) \<le> maxp \<and>
         int (length (results (final (crawl_loop L c0)))) \<le> maxp \<and>
         (maxp \<le> int (length (results (final r))) \<longrightarrow> crawl_loop L (final r) = Inr (final r))"
proof -
  have start: "int (length (results c0)) \<le> max_pages c0" and m: "max_pages c0 = maxp"
    using fresh_start [OF assms(2)] assms(1) by simp_all
  have a: "int (length (results (final r))) \<le> maxp"
    using runs_page_cap [OF start assms(3)] m by simp
  have b: "int (length (results (final (crawl_loop L c0)))) \<le> maxp"
    using runs_page_cap [OF start runs_crawl_loop] m by simp
  have "max_pages (final r) = maxp"
    using runs_config [OF assms(3)] m by simp
  then have c: "maxp \<le> int (length (results (final r))) \<longrightarrow> crawl_loop L (final r) = Inr (final r)"
    using crawl_loop_stops_at_cap [of "final r" L] by simp
  show ?thesis using a b c by blast
qed

text \<open>
  With \<open>max_pages = 1\<close> the crawl of the small site stops after the home page, the three
  links found on it still in the queue.
\<close>

theorem page_cap_witness:
  "map url (results (final (crawl site (site_crawler 1 2)))) = [''https://example.com''] \<and>
   to_visit (final (crawl site (site_crawler 1 2))) =
     [(''https://example.com/about'', 1), (''httpx://example.com/x'', 1),
      (''https://example.com/about'', 1)] \<and>
   int (length (results (final (crawl site (site_crawler 1 2))))) \<le> 1 \<and>
   crawl_loop site (final (crawl site (site_crawler 1 2))) = Inr (final (crawl site (site_crawler 1 2)))"
proof -
  obtain c0 where
    i: "py_bind (SEOCrawler_init site ''https://example.com/'' 1 1 False 2 True) (initialize site) = Inr c0"
    and c: "crawl site (site_crawler 1 2) = crawl_loop site c0"
    using site_crawl_loop [of 1 2] by blast
  have p: "(0::int) \<le> 1" by simp
  have e1: "map url (results (final (crawl site (site_crawler 1 2)))) = [''https://example.com'']"
    by code_simp
  have e2: "to_visit (final (crawl site (site_crawler 1 2))) =
     [(''https://example.com/about'', 1), (''httpx://example.com/x'', 1),
      (''https://example.com/about'', 1)]"
    by code_simp
  have e3: "(1::int) \<le> int (length (results (final (crawl site (site_crawler 1 2)))))"
    by (simp add: e1 [symmetric, THEN arg_cong [where f = length], simplified])
  from page_cap [OF p i runs_crawl_loop]
  have "int (length (results (final (crawl_loop site c0)))) \<le> 1"
    and "1 \<le> int (length (results (final (crawl_loop site c0)))) \<longrightarrow>
         crawl_loop site (final (crawl_loop site c0)) = Inr (final (crawl_loop site c0))"
    by blast+
  then show ?thesis using e1 e2 e3 c by simp
qed

text \<open>
  The claim as stated is for every crawl.  \<open>max_pages\<close> is an \<open>int\<close> that the
  constructor takes as it is: with \<open>max_pages = -1\<close> the loop never runs, \<open>results\<close> stays
  empty, and \<open>0 \<le> -1\<close> is false.
\<close>

theorem page_cap_negative_counterexample:
  "results (final (crawl site (site_crawler (- 1) 2))) = [] \<and>
   max_pages (final (crawl site (site_crawler (- 1) 2))) = - 1 \<and>
   \<not> int (length (results (final (crawl site (site_crawler (- 1) 2)))))
       \<le> max_pages (final (crawl site (site_crawler (- 1) 2)))"
  by code_simp

subsection \<open>C4\<close>

text \<open>
  Claim C4.  For a crawler made by the constructor, in every state of every run of the
  loop: no URL is twice in the log of fetches, which is also the log of \<open>visited.add\<close>;
  \<open>visited\<close> is the set of the fetched URLs; no URL is twice in \<open>results\<close>.  And in every
  pass: an entry whose URL is in \<open>visited\<close> is not fetched, and no URL that the pass puts
  into the queue is in \<open>visited\<close>.
\<close>

theorem each_url_fetched_once:
  assumes "py_bind (SEOCrawler_init L base maxd maxp subs interval cb) (initialize L) = Inr c0"
    and "runs L c0 r"
  shows "distinct (map fst (fetched (final r))) \<and>
         fst ` set (fetched (final r)) = visited (final r) \<and>
         distinct (map url (results (final r))) \<and>
         (\<forall>c u depth rest.
            r = Inr c \<and> to_visit c = (u, depth) # rest \<and> int (length (results c)) < max_pages c \<longrightarrow>
            (u \<in> visited c \<longrightarrow>
               fetched (final (crawl_body L (c\<lparr>to_visit := rest\<rparr>) u depth)) = fetched c) \<and>
            (\<exists>links.
               to_visit (final (crawl_body L (c\<lparr>to_visit := rest\<rparr>) u depth)) =
                 rest @ map (\<lambda>l. (l, depth + 1)) links \<and>
               (\<forall>l \<in> set links.
                  l \<notin> visited (final (crawl_body L (c\<lparr>to_visit := rest\<rparr>) u depth)))))"
proof -
  have inv: "dedup_inv (final r)"
    using runs_dedup [OF fresh_dedup(1) [OF assms(1)] assms(2)] .
  have a: "distinct (map fst (fetched (final r)))" and c: "distinct (map url (results (final r)))"
    using inv by (simp_all add: dedup_inv_def)
  have b: "fst ` set (fetched (final r)) = visited (final r)"
    using runs_visited_eq [OF fresh_dedup(2) [OF assms(1)] assms(2)] .
  have d: "\<forall>c u depth rest.
            r = Inr c \<and> to_visit c = (u, depth) # rest \<and> int (length (results c)) < max_pages c \<longrightarrow>
            (u \<in> visited c \<longrightarrow>
               fetched (final (crawl_body L (c\<lparr>to_visit := rest\<rparr>) u depth)) = fetched c) \<and>
            (\<exists>links.
               to_visit (final (crawl_body L (c\<lparr>to_visit := rest\<rparr>) u depth)) =
                 rest @ map (\<lambda>l. (l, depth + 1)) links \<and>
               (\<forall>l \<in> set links.
                  l \<notin> visited (final (crawl_body L (c\<lparr>to_visit := rest\<rparr>) u depth))))"
  proof (intro allI impI conjI)
    fix c :: crawler and u :: string and depth :: int and rest :: "(string \<times> int) list"
    assume "u \<in> visited c"
    then show "fetched (final (crawl_body L (c\<lparr>to_visit := rest\<rparr>) u depth)) = fetched c"
      using crawl_body_no_refetch [of u "c\<lparr>to_visit := rest\<rparr>" L depth] by simp
  next
    fix c :: crawler and u :: string and depth :: int and rest :: "(string \<times> int) list"
    obtain links where
      "to_visit (final (crawl_body L (c\<lparr>to_visit := rest\<rparr>) u depth)) =
         to_visit (c\<lparr>to_visit := rest\<rparr>) @ map (\<lambda>l. (l, depth + 1)) links"
      "\<forall>l \<in> set links. l \<notin> visited (final (crawl_body L (c\<lparr>to_visit := rest\<rparr>) u depth))"
      using crawl_body_queue [of L "c\<lparr>to_visit := rest\<rparr>" u depth] by blast
    then show "\<exists>links.
               to_visit (final (crawl_body L (c\<lparr>to_visit := rest\<rparr>) u depth)) =
                 rest @ map (\<lambda>l. (l, depth + 1)) links \<and>
               (\<forall>l \<in> set links.
                  l \<notin> visited (final (crawl_body L (c\<lparr>to_visit := rest\<rparr>) u depth)))"
      by (intro exI [of _ links]) simp
  qed
  show ?thesis
    by (rule conjI [OF a conjI [OF b conjI [OF c d]]])
qed

text \<open>
  The home page of the small site links to \<open>/about\<close> twice; it is fetched once.
\<close>

theorem each_url_fetched_once_witness:
  "map fst (fetched (final (crawl site (site_crawler 10 2)))) =
     [''https://example.com'', ''https://example.com/about'', ''httpx://example.com/x''] \<and>
   map url (results (final (crawl site (site_crawler 10 2)))) =
     [''https://example.com'', ''https://example.com/about''] \<and>
   distinct (map fst (fetched (final (crawl site (site_crawler 10 2))))) \<and>
   distinct (map url (results (final (crawl site (site_crawler 10 2)))))"
proof -
  obtain c0 where
    i: "py_bind (SEOCrawler_init site ''https://example.com/'' 1 10 False 2 True) (initialize site) = Inr c0"
    and c: "crawl site (site_crawler 10 2) = crawl_loop site c0"
    using site_crawl_loop [of 10 2] by blast
  have e1: "map fst (fetched (final (crawl site (site_crawler 10 2)))) =
     [''https://example.com'', ''https://example.com/about'', ''httpx://example.com/x'']"
    by code_simp
  have e2: "map url (results (final (crawl site (site_crawler 10 2)))) =
     [''https://example.com'', ''https://example.com/about'']"
    by code_simp
  note once = each_url_fetched_once [OF i runs_crawl_loop]
  have "distinct (map fst (fetched (final (crawl_loop site c0))))"
    by (rule once [THEN conjunct1])
  moreover have "distinct (map url (results (final (crawl_loop site c0))))"
    by (rule once [THEN conjunct2, THEN conjunct2, THEN conjunct1])
  ultimately show ?thesis using e1 e2 c by simp
qed

subsection \<open>C5\<close>

text \<open>
  Claim C5.  For a crawler made by the constructor, every entry that a run fetches has a
  depth of at most \<open>max_depth\<close>, so none has depth \<open>max_depth + 1\<close>; a pass puts links into
  the queue at the depth of its entry plus one, and only when that entry's depth is below
  \<open>max_depth\<close>.
\<close>

theorem depth_bound:
  assumes "py_bind (SEOCrawler_init L base maxd maxp subs interval cb) (initialize L) = Inr c0"
    and "runs L c0 r"
  shows "(\<forall>(u, d) \<in> set (fetched (final r)). d \<le> maxd) \<and>
         (\<forall>u. (u, maxd + 1) \<notin> set (fetched (final r))) \<and>
         (\<forall>c u depth rest.
            r = Inr c \<and> to_visit c = (u, depth) # rest \<and> int (length (results c)) < max_pages c \<longrightarrow>
            (\<exists>links.
               to_visit (final (crawl_body L (c\<lparr>to_visit := rest\<rparr>) u depth)) =
                 rest @ map (\<lambda>l. (l, depth + 1)) links \<and>
               (links \<noteq> [] \<longrightarrow> depth < maxd)))"
proof -
  have m: "max_depth c0 = maxd" and f: "fetched c0 = []"
    using fresh_start [OF assms(1)] by simp_all
  have a: "\<forall>(u, d) \<in> set (fetched (final r)). d \<le> maxd"
    using runs_depth [OF _ assms(2)] m f by simp
  then have b: "\<forall>u. (u, maxd + 1) \<notin> set (fetched (final r))"
    by fastforce
  have c: "\<forall>c u depth rest.
            r = Inr c \<and> to_visit c = (u, depth) # rest \<and> int (length (results c)) < max_pages c \<longrightarrow>
            (\<exists>links.
               to_visit (final (crawl_body L (c\<lparr>to_visit := rest\<rparr>) u depth)) =
                 rest @ map (\<lambda>l. (l, depth + 1)) links \<and>
               (links \<noteq> [] \<longrightarrow> depth < maxd))"
  proof (intro allI impI, elim conjE)
    fix c :: crawler and u :: string and depth :: int and rest :: "(string \<times> int) list"
    assume r: "r = Inr c"
    have md: "max_depth c = maxd"
      using runs_config [OF assms(2)] r m by simp
    obtain links where
      "to_visit (final (crawl_body L (c\<lparr>to_visit := rest\<rparr>) u depth)) =
         to_visit (c\<lparr>to_visit := rest\<rparr>) @ map (\<lambda>l. (l, depth + 1)) links"
      "links \<noteq> [] \<longrightarrow> depth < max_depth (c\<lparr>to_visit := rest\<rparr>)"
      using crawl_body_queue [of L "c\<lparr>to_visit := rest\<rparr>" u depth] by blast
    then show "\<exists>links.
               to_visit (final (crawl_body L (c\<lparr>to_visit := rest\<rparr>) u depth)) =
                 rest @ map (\<lambda>l. (l, depth + 1)) links \<and>
               (links \<noteq> [] \<longrightarrow> depth < maxd)"
      using md by (intro exI [of _ links]) simp
  qed
  show ?thesis
    by (rule conjI [OF a conjI [OF b c]])
qed

text \<open>
  With \<open>max_depth = 1\<close> the small site is fetched at depths 0 and 1, nothing at depth 2.
\<close>

theorem depth_bound_witness:
  "fetched (final (crawl site (site_crawler 10 2))) =
     [(''https://example.com'', 0), (''https://example.com/about'', 1), (''httpx://example.com/x'', 1)] \<and>
   (''https://example.com/about'', 2) \<notin> set (fetched (final (crawl site (site_crawler 10 2))))"
proof -
  obtain c0 where
    i: "py_bind (SEOCrawler_init site ''https://example.com/'' 1 10 False 2 True) (initialize site) = Inr c0"
    and c: "crawl site (site_crawler 10 2) = crawl_loop site c0"
    using site_crawl_loop [of 10 2] by blast
  have e1: "fetched (final (crawl site (site_crawler 10 2))) =
     [(''https://example.com'', 0), (''https://example.com/about'', 1), (''httpx://example.com/x'', 1)]"
    by code_simp
  have "\<forall>u. (u, 1 + 1) \<notin> set (fetched (final (crawl_loop site c0)))"
    by (rule depth_bound [OF i runs_crawl_loop, THEN conjunct2, THEN conjunct1])
  then have "(''https://example.com/about'', 2) \<notin> set (fetched (final (crawl_loop site c0)))"
    by simp
  then show ?thesis using e1 c by simp
qed

subsection \<open>C6\<close>

text \<open>
  Claim C6 has \<open>extract_links\<close> return, for every document and base URL, the \<open>href\<close> of
  every anchor joined to the base URL, in document order and with duplicates kept, those
  URLs only whose scheme is HTTP or HTTPS and that \<open>allowed\<close> accepts.  The code keeps a URL
  when its text starts with the four characters \<open>http\<close> and \<open>allowed\<close> accepts it, and it
  calls \<open>urljoin\<close> and \<open>allowed\<close> outside any \<open>try\<close>.  When the parser, \<open>urljoin\<close> and
  \<open>allowed\<close> return, the order and the duplicates are as the claim has them:
\<close>

lemma extract_links_returns:
  assumes "BeautifulSoup L html = Inr soup"
    and "\<forall>a \<in> set (soup_find_all soup (\<lambda>n. is_tag ''a'' n \<and> tag_get n ''href'' \<noteq> None)).
           \<exists>href. urljoin L base (the (tag_get a ''href'')) = Inr href \<and>
             (startswith href ''http'' \<longrightarrow> (\<exists>ok. allowed L c href = Inr ok))"
  shows "extract_links L c html base =
     Inr (filter (\<lambda>h. startswith h ''http'' \<and> allowed L c h = Inr True)
            (map (\<lambda>a. projr (urljoin L base (the (tag_get a ''href''))))
               (soup_find_all soup (\<lambda>n. is_tag ''a'' n \<and> tag_get n ''href'' \<noteq> None))))"
proof -
  let ?tags = "soup_find_all soup (\<lambda>n. is_tag ''a'' n \<and> tag_get n ''href'' \<noteq> None)"
  have "\<forall>a \<in> set ?tags. \<exists>v href. tag_get a ''href'' = Some v \<and> urljoin L base v = Inr href \<and>
             (startswith href ''http'' \<longrightarrow> (\<exists>ok. allowed L c href = Inr ok))"
  proof
    fix a assume a: "a \<in> set ?tags"
    then obtain v where v: "tag_get a ''href'' = Some v"
      by (auto simp: soup_find_all_def)
    from assms(2) a obtain href where "urljoin L base (the (tag_get a ''href'')) = Inr href"
      and "startswith href ''http'' \<longrightarrow> (\<exists>ok. allowed L c href = Inr ok)"
      by blast
    then show "\<exists>v href. tag_get a ''href'' = Some v \<and> urljoin L base v = Inr href \<and>
             (startswith href ''http'' \<longrightarrow> (\<exists>ok. allowed L c href = Inr ok))"
      using v by simp
  qed
  from links_loop_returns [OF this, of "[]"] show ?thesis
    by (simp add: extract_links_def assms(1))
qed

text \<open>
  The home page of the small site links to \<open>httpx://example.com/x\<close>.  \<open>urljoin\<close> leaves a
  URL with a scheme of its own as it is, the text starts with \<open>http\<close>, the host is the
  base host: the link is returned, and its scheme is neither HTTP nor HTTPS.
\<close>

lemma extract_links_keeps_httpx:
  "extract_links site (projr (initialize site (site_crawler 10 2))) ''home'' ''https://example.com'' =
     Inr [''https://example.com/about'', ''httpx://example.com/x'', ''https://example.com/about''] \<and>
   \<not> is_http ''httpx://example.com/x''"
  by code_simp

text \<open>
  The page \<open>links\<close> has an anchor to \<open>http://[x\<close>, on which \<open>urljoin\<close> raises \<open>ValueError\<close>:
  \<open>extract_links\<close> returns no list, the exception leaves it.
\<close>

lemma extract_links_raises_on_bad_href:
  "extract_links site (projr (initialize site (site_crawler 10 2))) ''links'' ''https://example.com'' =
     Inl (Raised ''Invalid IPv6 URL'')"
  by code_simp

subsection \<open>C7\<close>




subsection \<open>C8\<close>




subsection \<open>C9\<close>

text \<open>
  Claim C9.  For a URL whose parsed host name is \<open>None\<close> or empty, \<open>allowed\<close> skips the
  comparison with the base host, also when \<open>include_subdomains\<close> is false: the answer is
  the answer of the robots rules alone.
\<close>

theorem allowed_without_hostname:
  "hostname L u = Inr None \<or> hostname L u = Inr (Some []) \<Longrightarrow>
   allowed L c u = can_fetch L (robot_parser c) ''*'' u"
  by (auto simp: allowed_def)

text \<open>\<open>http:///etc\<close> has no host; with subdomains excluded and the base host
  \<open>example.com\<close> it is allowed.\<close>

theorem allowed_without_hostname_witness:
  "hostname site ''http:///etc'' = Inr None \<and>
   include_subdomains (projr (initialize site (site_crawler 10 2))) = False \<and>
   parsed_base (projr (initialize site (site_crawler 10 2))) = Some ''example.com'' \<and>
   allowed site (projr (initialize site (site_crawler 10 2))) ''http:///etc'' = Inr True"
proof -
  have h: "hostname site ''http:///etc'' = Inr None"
    by code_simp
  have c: "can_fetch site (robot_parser (projr (initialize site (site_crawler 10 2)))) ''*'' ''http:///etc'' =
             Inr True"
    by code_simp
  have s: "include_subdomains (projr (initialize site (site_crawler 10 2))) = False"
    "parsed_base (projr (initialize site (site_crawler 10 2))) = Some ''example.com''"
    by code_simp+
  have "hostname site ''http:///etc'' = Inr None \<or> hostname site ''http:///etc'' = Inr (Some [])"
    using h by simp
  from allowed_without_hostname [OF this, of "projr (initialize site (site_crawler 10 2))"]
  show ?thesis using h c s by simp
qed

subsection \<open>C10\<close>

text \<open>
  Claim C10, as amended.  For a crawler made by the constructor with
  \<open>autosave_interval = 0\<close>: at the head of the loop \<open>results\<close> is always empty, and no state
  has more than one page; the pass whose fetch returns a response and whose page
  \<open>parse_page\<close> builds raises \<open>ZeroDivisionError\<close> at line 123, right after that page, the
  first, was appended to \<open>results\<close>, provided that the callback, when one is registered,
  returns.  With any other interval, positive or negative, no pass of the loop raises
  that error.
\<close>

theorem zero_autosave_interval_raises:
  assumes "py_bind (SEOCrawler_init L base maxd maxp subs interval cb) (initialize L) = Inr c0"
    and "runs L c0 r"
  shows "(interval = 0 \<longrightarrow>
            (case r of Inr c \<Rightarrow> results c = [] | Inl (e, c) \<Rightarrow> length (results c) \<le> 1)) \<and>
         (interval = 0 \<longrightarrow>
            (\<forall>c u depth rest st html page.
               r = Inr c \<and> to_visit c = (u, depth) # rest \<and>
               int (length (results c)) < max_pages c \<and>
               u \<notin> visited c \<and> depth \<le> max_depth c \<and> allowed L c u = Inr True \<and>
               http_get L (length (fetched c)) u = Response st html \<and>
               parse_page L u st html = Inr page \<and>
               (cb \<longrightarrow> callback L 1 maxp = None) \<longrightarrow>
               (\<exists>c'. crawl_body L (c\<lparr>to_visit := rest\<rparr>) u depth = Inl (ZeroDivisionError, c') \<and>
                     results c' = [page]))) \<and>
         (interval \<noteq> 0 \<longrightarrow> (\<forall>c'. r \<noteq> Inl (ZeroDivisionError, c')))"
proof -
  have i: "autosave_interval c0 = interval" and e: "results c0 = []"
    and m: "max_pages c0 = maxp" and p: "progress_callback c0 = cb"
    using fresh_start [OF assms(1)] by simp_all
  have a: "interval = 0 \<longrightarrow>
            (case r of Inr c \<Rightarrow> results c = [] | Inl (e, c) \<Rightarrow> length (results c) \<le> 1)"
    using runs_zero_interval [OF _ e assms(2)] i by simp
  have b: "interval = 0 \<longrightarrow>
            (\<forall>c u depth rest st html page.
               r = Inr c \<and> to_visit c = (u, depth) # rest \<and>
               int (length (results c)) < max_pages c \<and>
               u \<notin> visited c \<and> depth \<le> max_depth c \<and> allowed L c u = Inr True \<and>
               http_get L (length (fetched c)) u = Response st html \<and>
               parse_page L u st html = Inr page \<and>
               (cb \<longrightarrow> callback L 1 maxp = None) \<longrightarrow>
               (\<exists>c'. crawl_body L (c\<lparr>to_visit := rest\<rparr>) u depth = Inl (ZeroDivisionError, c') \<and>
                     results c' = [page]))"
  proof (intro impI allI, elim conjE)
    fix c :: crawler and u :: string and depth :: int and rest :: "(string \<times> int) list"
      and st :: int and html :: string and page :: PageResult
    assume z: "interval = 0" and r: "r = Inr c"
      and pre: "u \<notin> visited c" "depth \<le> max_depth c" "allowed L c u = Inr True"
      and get: "http_get L (length (fetched c)) u = Response st html"
      and page: "parse_page L u st html = Inr page"
      and quiet: "cb \<longrightarrow> callback L 1 maxp = None"
    let ?c = "c\<lparr>to_visit := rest\<rparr>"
    let ?d = "?c\<lparr>visited := insert u (visited ?c), fetched := fetched ?c @ [(u, depth)]\<rparr>"
    have cfg: "autosave_interval c = 0" "max_pages c = maxp" "progress_callback c = cb"
      using runs_config [OF assms(2)] r i z m p by simp_all
    have empty: "results c = []"
      using a z r by simp
    have i0: "autosave_interval ?d = 0"
      using cfg by simp
    have q: "progress_callback ?d \<longrightarrow> callback L (int (length (results ?d)) + 1) (max_pages ?d) = None"
      using quiet cfg empty by simp
    from handle_response_zero [OF page i0 q, of depth]
    obtain c' where "handle_response L ?d u depth st html = Inl (ZeroDivisionError, c')"
      and "results c' = results ?d @ [page]"
      by blast
    then have "crawl_body L ?c u depth = Inl (ZeroDivisionError, c')" and "results c' = [page]"
      using crawl_body_response [of u ?c depth L st html] pre get empty by simp_all
    then show "\<exists>c'. crawl_body L ?c u depth = Inl (ZeroDivisionError, c') \<and> results c' = [page]"
      by blast
  qed
  have c: "interval \<noteq> 0 \<longrightarrow> (\<forall>c'. r \<noteq> Inl (ZeroDivisionError, c'))"
    using runs_nonzero_interval [OF _ assms(2)] i by simp
  show ?thesis
    by (rule conjI [OF a conjI [OF b c]])
qed

text \<open>
  The small site with interval 0: the first pass, for the home page, raises with that
  page alone in \<open>results\<close>, and so does the crawl; with interval 2 the crawl does not
  raise the error.
\<close>

theorem zero_autosave_interval_raises_witness:
  "(\<exists>c'. crawl_body site ((projr (initialize site (site_crawler 10 0)))\<lparr>to_visit := []\<rparr>)
            ''https://example.com'' 0 = Inl (ZeroDivisionError, c') \<and>
         map url (results c') = [''https://example.com'']) \<and>
   fst (projl (crawl site (site_crawler 10 0))) = ZeroDivisionError \<and>
   (\<forall>c'. crawl site (site_crawler 10 2) \<noteq> Inl (ZeroDivisionError, c'))"
proof -
  let ?c = "projr (initialize site (site_crawler 10 0))"
  have i: "py_bind (SEOCrawler_init site ''https://example.com/'' 1 10 False 0 True) (initialize site) = Inr ?c"
    by (simp add: site_crawler_made site_initialize)
  obtain c2 where
    i2: "py_bind (SEOCrawler_init site ''https://example.com/'' 1 10 False 2 True) (initialize site) = Inr c2"
    and c2: "crawl site (site_crawler 10 2) = crawl_loop site c2"
    using site_crawl_loop [of 10 2] by blast
  have q: "to_visit ?c = (''https://example.com'', 0) # []" by code_simp
  have cap: "int (length (results ?c)) < max_pages ?c" by code_simp
  have v: "''https://example.com'' \<notin> visited ?c" and d: "0 \<le> max_depth ?c"
    and al: "allowed site ?c ''https://example.com'' = Inr True"
    by code_simp+
  have g: "http_get site (length (fetched ?c)) ''https://example.com'' = Response 200 ''home''"
    by code_simp
  have pp: "parse_page site ''https://example.com'' 200 ''home'' =
              Inr (projr (parse_page site ''https://example.com'' 200 ''home''))"
    by code_simp
  have pu: "url (projr (parse_page site ''https://example.com'' 200 ''home'')) = ''https://example.com''"
    by code_simp
  have quiet: "True \<longrightarrow> callback site 1 10 = None" by code_simp
  have e0: "fst (projl (crawl site (site_crawler 10 0))) = ZeroDivisionError"
    by code_simp
  note T = zero_autosave_interval_raises [OF i runs.start]
  have "\<exists>c'. crawl_body site (?c\<lparr>to_visit := []\<rparr>) ''https://example.com'' 0 =
               Inl (ZeroDivisionError, c') \<and>
             results c' = [projr (parse_page site ''https://example.com'' 200 ''home'')]"
    using T [THEN conjunct2, THEN conjunct1, rule_format, OF refl,
             of ?c "''https://example.com''" 0 "[]" 200 "''home''"
                "projr (parse_page site ''https://example.com'' 200 ''home'')"]
      q cap v d al g pp quiet
    by blast
  then have first: "\<exists>c'. crawl_body site (?c\<lparr>to_visit := []\<rparr>) ''https://example.com'' 0 =
               Inl (ZeroDivisionError, c') \<and> map url (results c') = [''https://example.com'']"
    using pu by auto
  have "\<forall>c'. crawl_loop site c2 \<noteq> Inl (ZeroDivisionError, c')"
    using zero_autosave_interval_raises [OF i2 runs_crawl_loop, THEN conjunct2, THEN conjunct2]
    by simp
  then show ?thesis using first e0 c2 by simp
qed

text \<open>
  The claim as stated lets the loop be free of exceptions only when the interval is
  positive.  In Python \<open>n % -1\<close> is 0 and raises nothing: with interval \<open>-1\<close> the crawl of the
  small site returns, two pages in \<open>results\<close>.
\<close>

theorem negative_autosave_interval_counterexample:
  "isl (crawl site (site_crawler 10 (- 1))) = False \<and>
   map url (results (final (crawl site (site_crawler 10 (- 1))))) =
     [''https://example.com'', ''https://example.com/about''] \<and>
   autosave_interval (final (crawl site (site_crawler 10 (- 1)))) = - 1 \<and>
   \<not> 0 < autosave_interval (final (crawl site (site_crawler 10 (- 1))))"
  by code_simp

end
